theory Spec2Isabelle
  imports Main "HOL-Library.Signed_Division" "HOL-Library.Word" "HOL-Library.Monad_Syntax"
begin

unbundle bit_operations_syntax

section \<open>BigInt arithmetic of the simulator (src/app.js)\<close>

text \<open>
  JavaScript BigInt values are unbounded integers: they are modelled by \<^typ>\<open>int\<close>.
  The operators of the source are read as follows:
  \<^item> \<^verbatim>\<open>x % y\<close> is the truncating remainder \<^term>\<open>x smod y\<close> and \<^verbatim>\<open>x / y\<close> the
    truncating quotient \<^term>\<open>x sdiv y\<close>; both raise RangeError when \<^verbatim>\<open>y\<close> is zero;
  \<^item> \<^verbatim>\<open>x & y\<close> is \<^term>\<open>x AND y\<close> on two's complement integers, \<^verbatim>\<open>x >> 1n\<close> is
    \<^term>\<open>drop_bit 1 x\<close> and \<^verbatim>\<open>x << k\<close> is \<^term>\<open>push_bit k x\<close>.

  A call that does not return normally has the result \<^term>\<open>None\<close>: either it raises
  (the only exception the arithmetic can raise is the RangeError of a division by zero),
  or one of its loops never exits.
\<close>

subsection \<open>modPow (lines 51-62)\<close>

text \<open>
  The \<^verbatim>\<open>while (e > 0n)\<close> loop of \<^verbatim>\<open>modPow\<close>, over its three variables
  \<^verbatim>\<open>result\<close>, \<^verbatim>\<open>b\<close> and \<^verbatim>\<open>e\<close>. The modulus is not zero when the loop is reached.
\<close>

function modPow_loop :: "int \<Rightarrow> int \<Rightarrow> int \<Rightarrow> int \<Rightarrow> int" where
  "modPow_loop result b e m =
     (if e > 0
      then modPow_loop (if e AND 1 \<noteq> 0 then (result * b) smod m else result)
                       ((b * b) smod m) (drop_bit 1 e) m
      else result)"
  by pat_completeness auto
termination
  by (relation "measure (\<lambda>(result, b, e, m). nat e)") (auto simp: drop_bit_eq_div)

declare modPow_loop.simps [simp del]

text \<open>
  \<^verbatim>\<open>modPow(base, exp, mod)\<close>. The first remainder \<^verbatim>\<open>base % mod\<close> raises RangeError
  when \<^verbatim>\<open>mod\<close> is \<^verbatim>\<open>0n\<close>.
\<close>

definition modPow :: "int \<Rightarrow> int \<Rightarrow> int \<Rightarrow> int option" where
  "modPow base exp m =
     (if m = 1 then Some 0
      else if m = 0 then None
      else Some (modPow_loop 1 (((base smod m) + m) smod m) exp m))"

subsection \<open>isProbablePrime (lines 65-94)\<close>

definition smallPrimes :: "int list" where
  "smallPrimes = [2, 3, 5, 7, 11, 13, 17, 19, 23, 29, 31, 37]"

text \<open>
  The loop \<^verbatim>\<open>for (const p of smallPrimes)\<close>: \<^term>\<open>Some r\<close> when one of its two
  \<^verbatim>\<open>return\<close> statements is taken with value \<open>r\<close>, \<^term>\<open>None\<close> when the
  loop runs to its end. The divisors are the non-zero literals of the list.
\<close>

fun trialDivision :: "int \<Rightarrow> int list \<Rightarrow> bool option" where
  "trialDivision n [] = None"
| "trialDivision n (p # ps) =
     (if n = p then Some True
      else if n smod p = 0 then Some (n = p)
      else trialDivision n ps)"

text \<open>
  \<^verbatim>\<open>while ((d & 1n) === 0n) { d >>= 1n; s++; }\<close> does not exit when \<^verbatim>\<open>d\<close> is zero.
\<close>

partial_function (option) factorTwos :: "int \<Rightarrow> int \<Rightarrow> (int \<times> int) option" where
  "factorTwos d s =
     (if d AND 1 = 0 then factorTwos (drop_bit 1 d) (s + 1) else Some (d, s))"

declare factorTwos.simps [code]

text \<open>
  The inner function \<^verbatim>\<open>check(a)\<close>, with the variables \<^verbatim>\<open>n\<close>, \<^verbatim>\<open>d\<close>, \<^verbatim>\<open>s\<close> of
  the enclosing call as parameters; \<open>check_loop\<close> is its \<^verbatim>\<open>for (let r = 1n; r < s; r++)\<close>.
  It is only reached with \<open>n \<ge> 2\<close>, so that \<^verbatim>\<open>% n\<close> does not raise.
\<close>

function check_loop :: "int \<Rightarrow> int \<Rightarrow> int \<Rightarrow> int \<Rightarrow> bool" where
  "check_loop n s r x =
     (if r < s
      then (let x' = (x * x) smod n
            in if x' = n - 1 then True else check_loop n s (r + 1) x')
      else False)"
  by pat_completeness auto
termination
  by (relation "measure (\<lambda>(n, s, r, x). nat (s - r))") auto

declare check_loop.simps [simp del]

definition check :: "int \<Rightarrow> int \<Rightarrow> int \<Rightarrow> int \<Rightarrow> bool option" where
  "check n d s a =
     (if a smod n = 0 then Some True
      else do {
        x \<leftarrow> modPow a d n;
        if x = 1 \<or> x = n - 1 then Some True
        else Some (check_loop n s 1 x)
      })"

definition bases :: "int list" where
  "bases = [2, 3, 5, 7, 11, 13, 17]"

text \<open>The loop \<^verbatim>\<open>for (const a of bases) { if (!check(a)) return false; }\<close> and the final \<^verbatim>\<open>return true\<close>.\<close>

fun checkBases :: "int \<Rightarrow> int \<Rightarrow> int \<Rightarrow> int list \<Rightarrow> bool option" where
  "checkBases n d s [] = Some True"
| "checkBases n d s (a # as) =
     do {
       ok \<leftarrow> check n d s a;
       if \<not> ok then Some False else checkBases n d s as
     }"

definition isProbablePrime :: "int \<Rightarrow> bool option" where
  "isProbablePrime n =
     (if n < 2 then Some False
      else case trialDivision n smallPrimes of
             Some r \<Rightarrow> Some r
           | None \<Rightarrow> do {
               (d, s) \<leftarrow> factorTwos (n - 1) 0;
               checkBases n d s bases
             })"

subsection \<open>randomBigIntBelow, randomBigIntInRange (lines 97-118)\<close>

text \<open>
  The secure byte source is the sequence of bytes that \<^verbatim>\<open>crypto.getRandomValues\<close> will
  deliver, in order: a call that fills an array of \<open>byteLen\<close> bytes takes the next
  \<open>byteLen\<close> of them.
\<close>

type_synonym rng = "nat \<Rightarrow> 8 word"

definition getRandomValues :: "nat \<Rightarrow> rng \<Rightarrow> 8 word list \<times> rng" where
  "getRandomValues byteLen r = (map r [0..<byteLen], \<lambda>i. r (i + byteLen))"

text \<open>
  \<^verbatim>\<open>maxExclusive.toString(2).length\<close> for a BigInt that is not negative: the number of
  binary digits.
\<close>

function bitLength :: "int \<Rightarrow> nat" where
  "bitLength x = (if x \<le> 1 then 1 else Suc (bitLength (x div 2)))"
  by pat_completeness auto
termination
  by (relation "measure nat") auto

declare bitLength.simps [simp del]

text \<open>\<^verbatim>\<open>for (let i = 0; i < byteLen; i++) val = (val << 8n) + BigInt(bytes[i])\<close>.\<close>

definition bytesToBigInt :: "8 word list \<Rightarrow> int" where
  "bytesToBigInt bytes = foldl (\<lambda>val byte. push_bit 8 val + uint byte) 0 bytes"

text \<open>
  The \<^verbatim>\<open>while (true)\<close> loop: draw, mask, return the value if it is below the bound,
  draw again otherwise. Nothing bounds the number of draws.
\<close>

partial_function (option) drawLoop :: "int \<Rightarrow> nat \<Rightarrow> int \<Rightarrow> rng \<Rightarrow> (int \<times> rng) option" where
  "drawLoop maxExclusive byteLen msk r =
     (case getRandomValues byteLen r of
        (bytes, r') \<Rightarrow>
          (let val = bytesToBigInt bytes AND msk
           in if val < maxExclusive then Some (val, r')
              else drawLoop maxExclusive byteLen msk r'))"

declare drawLoop.simps [code]

text \<open>
  \<^verbatim>\<open>Math.ceil(bitLen / 8)\<close> is \<open>(bitLen + 7) div 8\<close> on natural numbers, and
  \<^verbatim>\<open>(1n << BigInt(bitLen)) - 1n\<close> is \<open>push_bit bitLen 1 - 1\<close>.
\<close>

definition randomBigIntBelow :: "int \<Rightarrow> rng \<Rightarrow> (int \<times> rng) option" where
  "randomBigIntBelow maxExclusive r =
     (if maxExclusive \<le> 0 then Some (0, r)
      else
        let bitLen = bitLength maxExclusive;
            byteLen = (bitLen + 7) div 8;
            msk = push_bit bitLen 1 - 1
        in drawLoop maxExclusive byteLen msk r)"

definition randomBigIntInRange :: "int \<Rightarrow> int \<Rightarrow> rng \<Rightarrow> (int \<times> rng) option" where
  "randomBigIntInRange mn mx r =
     (let (mn', mx') = (if mx < mn then (mx, mn) else (mn, mx));
          span = (mx' - mn') + 1
      in do {
        (off, r') \<leftarrow> randomBigIntBelow span r;
        Some (mn' + off, r')
      })"

subsection \<open>randomPrimeInRange (lines 121-146)\<close>

text \<open>The first five statements: the bounds raised to 5, made odd, and swapped if inverted.\<close>

definition normalizeRange :: "int \<Rightarrow> int \<Rightarrow> int \<times> int" where
  "normalizeRange minP maxP =
     (let maxP1 = (if maxP < 5 then 5 else maxP);
          minP1 = (if minP < 5 then 5 else minP);
          minP2 = (if minP1 AND 1 = 0 then minP1 + 1 else minP1);
          maxP2 = (if maxP1 AND 1 = 0 then maxP1 - 1 else maxP1)
      in if minP2 > maxP2 then (maxP2, minP2) else (minP2, maxP2))"

text \<open>
  The \<^verbatim>\<open>while (tries < limit)\<close> loop: \<^term>\<open>Some (Some p)\<close> when it returns the
  candidate \<open>p\<close>, \<^term>\<open>Some None\<close> when it ends without a prime.
\<close>

function randomScan :: "int \<Rightarrow> int \<Rightarrow> int \<Rightarrow> int \<Rightarrow> int \<Rightarrow> int option option" where
  "randomScan minP maxP limit tries candidate =
     (if tries < limit
      then do {
        prime \<leftarrow> isProbablePrime candidate;
        if prime then Some (Some candidate)
        else randomScan minP maxP limit (tries + 1)
               (if candidate + 2 > maxP then minP else candidate + 2)
      }
      else Some None)"
  by pat_completeness auto
termination
  by (relation "measure (\<lambda>(minP, maxP, limit, tries, candidate). nat (limit - tries))") auto

declare randomScan.simps [simp del]

text \<open>The loop \<^verbatim>\<open>for (let n = minP; n <= maxP; n += 2n)\<close>, with the same results.\<close>

function fallbackScan :: "int \<Rightarrow> int \<Rightarrow> int option option" where
  "fallbackScan n maxP =
     (if n \<le> maxP
      then do {
        prime \<leftarrow> isProbablePrime n;
        if prime then Some (Some n) else fallbackScan (n + 2) maxP
      }
      else Some None)"
  by pat_completeness auto
termination
  by (relation "measure (\<lambda>(n, maxP). nat (maxP + 1 - n))") auto

declare fallbackScan.simps [simp del]

text \<open>
  \<^verbatim>\<open>Number((maxP - minP) / 2n) + 2\<close> is taken as the exact integer, which it is while the
  quotient is below \<open>2 ^ 53\<close>.
\<close>

definition randomPrimeInRange :: "int \<Rightarrow> int \<Rightarrow> rng \<Rightarrow> (int \<times> rng) option" where
  "randomPrimeInRange minP0 maxP0 r =
     (case normalizeRange minP0 maxP0 of
        (minP, maxP) \<Rightarrow> do {
          (c, r') \<leftarrow> randomBigIntInRange minP maxP r;
          let candidate = (if c AND 1 = 0 then c + 1 else c);
          let limit = (maxP - minP) sdiv 2 + 2;
          found \<leftarrow> randomScan minP maxP limit 0 candidate;
          case found of
            Some p \<Rightarrow> Some (p, r')
          | None \<Rightarrow> do {
              found' \<leftarrow> fallbackScan minP maxP;
              case found' of
                Some n \<Rightarrow> Some (n, r')
              | None \<Rightarrow> Some (101, r')
            }
        })"

subsection \<open>primeFactorsDistinct (lines 149-160)\<close>

text \<open>\<^verbatim>\<open>if (!out.includes(q)) out.push(q)\<close>.\<close>

definition pushDistinct :: "int \<Rightarrow> int list \<Rightarrow> int list" where
  "pushDistinct q out = (if q \<in> set out then out else out @ [q])"

text \<open>
  The loop \<^verbatim>\<open>while (x % 2n === 0n)\<close>. Nothing bounds it: at \<open>x = 0\<close> the quotient is 0
  again and the loop does not end.
\<close>

partial_function (option) divideOutTwos :: "int \<Rightarrow> int list \<Rightarrow> (int \<times> int list) option" where
  "divideOutTwos x out =
     (if x smod 2 = 0 then divideOutTwos (x sdiv 2) (pushDistinct 2 out) else Some (x, out))"

declare divideOutTwos.simps [code]

text \<open>
  The loop \<^verbatim>\<open>while (f * f <= x)\<close>, from \<open>f = 3\<close>: a divisor \<open>f\<close> is recorded and divided
  out, and \<open>f\<close> stays; otherwise \<open>f\<close> grows by 2. The remainder by \<open>f = 0\<close> raises a
  \<^verbatim>\<open>RangeError\<close>.
\<close>

partial_function (option) oddFactors :: "int \<Rightarrow> int \<Rightarrow> int list \<Rightarrow> (int \<times> int list) option" where
  "oddFactors f x out =
     (if f * f \<le> x then
        (if f = 0 then None
         else if x smod f = 0 then oddFactors f (x sdiv f) (pushDistinct f out)
         else oddFactors (f + 2) x out)
      else Some (x, out))"

declare oddFactors.simps [code]

definition primeFactorsDistinct :: "int \<Rightarrow> int list option" where
  "primeFactorsDistinct n =
     do {
       (x, out) \<leftarrow> divideOutTwos n [];
       (x', out') \<leftarrow> oddFactors 3 x out;
       Some (if x' > 1 then pushDistinct x' out' else out')
     }"

subsection \<open>findGenerator (lines 163-183)\<close>

text \<open>
  The inner loop \<^verbatim>\<open>for (const q of factors)\<close> of both searches, with its \<^verbatim>\<open>break\<close>: the
  value of \<^verbatim>\<open>ok\<close> after it. The quotient by \<open>q = 0\<close> raises a \<^verbatim>\<open>RangeError\<close>.
\<close>

fun passesAll :: "int \<Rightarrow> int \<Rightarrow> int \<Rightarrow> int list \<Rightarrow> bool option" where
  "passesAll gCand phi p [] = Some True"
| "passesAll gCand phi p (q # qs) =
     (if q = 0 then None
      else do {
        x \<leftarrow> modPow gCand (phi sdiv q) p;
        if x = 1 then Some False else passesAll gCand phi p qs
      })"

text \<open>
  The loop \<^verbatim>\<open>for (let attempt = 0; attempt < 64; attempt++)\<close>: \<^term>\<open>Some (Some g, r)\<close> when
  it returns the candidate \<open>g\<close>, \<^term>\<open>Some (None, r)\<close> when the 64 attempts are used up,
  with the random source \<open>r\<close> as the draws leave it.
\<close>

function attemptLoop ::
  "nat \<Rightarrow> int \<Rightarrow> int \<Rightarrow> int list \<Rightarrow> rng \<Rightarrow> (int option \<times> rng) option" where
  "attemptLoop attempt p phi factors r =
     (if attempt < 64 then
        (case randomBigIntInRange 2 (p - 2) r of
           None \<Rightarrow> None
         | Some (gCand, r') \<Rightarrow>
             (case passesAll gCand phi p factors of
                None \<Rightarrow> None
              | Some ok \<Rightarrow>
                  if ok then Some (Some gCand, r')
                  else attemptLoop (attempt + 1) p phi factors r'))
      else Some (None, r))"
  by pat_completeness auto
termination
  by (relation "measure (\<lambda>(attempt, p, phi, factors, r). 64 - attempt)") auto

declare attemptLoop.simps [simp del]

text \<open>The loop \<^verbatim>\<open>for (let gCand = 2n; gCand <= p - 2n; gCand++)\<close>.\<close>

function linearSearch :: "int \<Rightarrow> int \<Rightarrow> int \<Rightarrow> int list \<Rightarrow> int option option" where
  "linearSearch gCand p phi factors =
     (if gCand \<le> p - 2 then
        (case passesAll gCand phi p factors of
           None \<Rightarrow> None
         | Some ok \<Rightarrow> if ok then Some (Some gCand) else linearSearch (gCand + 1) p phi factors)
      else Some None)"
  by pat_completeness auto
termination
  by (relation "measure (\<lambda>(gCand, p, phi, factors). nat (p - 1 - gCand))") auto

declare linearSearch.simps [simp del]

definition findGenerator :: "int \<Rightarrow> rng \<Rightarrow> (int \<times> rng) option" where
  "findGenerator p r =
     (let phi = p - 1
      in do {
        factors \<leftarrow> primeFactorsDistinct phi;
        (found, r') \<leftarrow> attemptLoop 0 p phi factors r;
        case found of
          Some gCand \<Rightarrow> Some (gCand, r')
        | None \<Rightarrow> do {
            found' \<leftarrow> linearSearch 2 p phi factors;
            case found' of
              Some gCand \<Rightarrow> Some (gCand, r')
            | None \<Rightarrow> Some (2, r')
          }
      })"

section \<open>The exchange session (src/app.js)\<close>

subsection \<open>Session state\<close>

text \<open>
  The module-level variables of the script and the page elements it reads and writes.
  \<^item> \<open>pInput\<close>, \<open>gInput\<close>, \<open>aInput\<close>, \<open>bInput\<close>: the \<^verbatim>\<open>value\<close> of the four input
    fields, a text over the code units 0..255;
  \<^item> \<open>stepIdx\<close>: the step cursor; \<open>st_p\<close>, \<open>st_g\<close>, \<open>st_a\<close>, \<open>st_b\<close>: the variables
    \<^verbatim>\<open>p\<close>, \<^verbatim>\<open>g\<close>, \<^verbatim>\<open>a\<close>, \<^verbatim>\<open>b\<close>;
  \<^item> \<open>st_A\<close>, \<open>st_B\<close>, \<open>sAlice\<close>, \<open>sBob\<close>: the variables \<^verbatim>\<open>A\<close>, \<^verbatim>\<open>B\<close>,
    \<^verbatim>\<open>sAlice\<close>, \<^verbatim>\<open>sBob\<close>, with \<^term>\<open>None\<close> for \<^verbatim>\<open>null\<close>;
  \<^item> \<open>msgBox\<close>: the text of the message element;
  \<^item> \<open>ABox\<close>, \<open>BBox\<close>, \<open>S1Box\<close>, \<open>S2Box\<close>: the number a value box shows, with
    \<^term>\<open>None\<close> for the placeholder text \<^verbatim>\<open>?\<close>.
  The autoplay timer, the flash animation and the HTML of the step list are presentation
  and are not part of the state.
\<close>

record session =
  pInput :: string
  gInput :: string
  aInput :: string
  bInput :: string
  stepIdx :: int
  st_p :: int
  st_g :: int
  st_a :: int
  st_b :: int
  st_A :: "int option"
  st_B :: "int option"
  sAlice :: "int option"
  sBob :: "int option"
  msgBox :: string
  ABox :: "int option"
  BBox :: "int option"
  S1Box :: "int option"
  S2Box :: "int option"

definition TOTAL_STEPS :: int where
  "TOTAL_STEPS = 9"

subsection \<open>parseBigIntDec and readInputs (lines 39-48, 186-196)\<close>

text \<open>
  \<^verbatim>\<open>trim()\<close> strips white space and line terminators at both ends; among the code
  units below 256 these are 9 to 13, 32 and 160.
\<close>

definition isWhiteSpace :: "char \<Rightarrow> bool" where
  "isWhiteSpace c = ((of_char c :: nat) \<in> {9, 10, 11, 12, 13, 32, 160})"

definition trim :: "string \<Rightarrow> string" where
  "trim s = rev (dropWhile isWhiteSpace (rev (dropWhile isWhiteSpace s)))"

definition isDigit :: "char \<Rightarrow> bool" where
  "isDigit c = (48 \<le> (of_char c :: nat) \<and> (of_char c :: nat) \<le> 57)"

definition digitValue :: "char \<Rightarrow> int" where
  "digitValue c = int (of_char c) - 48"

text \<open>\<^verbatim>\<open>BigInt(s)\<close> on a non-empty string of decimal digits.\<close>

definition bigIntOfDigits :: "string \<Rightarrow> int" where
  "bigIntOfDigits s = foldl (\<lambda>v c. 10 * v + digitValue c) 0 s"

text \<open>
  \<^verbatim>\<open>parseBigIntDec(str)\<close>: \<^term>\<open>Inl\<close> carries the \<^verbatim>\<open>error\<close> text of a result with
  \<^verbatim>\<open>ok: false\<close>, \<^term>\<open>Inr\<close> the \<^verbatim>\<open>value\<close> of a result with \<^verbatim>\<open>ok: true\<close>. The test
  \<^verbatim>\<open>/^[0-9]+$/\<close> holds for the non-empty strings of decimal digits, on which
  \<^verbatim>\<open>BigInt(s)\<close> does not raise.
\<close>

definition parseBigIntDec :: "string \<Rightarrow> string + int" where
  "parseBigIntDec str =
     (let s = trim str
      in if \<not> (s \<noteq> [] \<and> list_all isDigit s) then Inl ''Masukkan hanya angka desimal.''
         else Inr (bigIntOfDigits s))"

definition readInputs :: "session \<Rightarrow> string + (int \<times> int \<times> int \<times> int)" where
  "readInputs st =
     (case parseBigIntDec (pInput st) of
        Inl e \<Rightarrow> Inl (''p: '' @ e)
      | Inr pV \<Rightarrow>
     (case parseBigIntDec (gInput st) of
        Inl e \<Rightarrow> Inl (''g: '' @ e)
      | Inr gV \<Rightarrow>
     (case parseBigIntDec (aInput st) of
        Inl e \<Rightarrow> Inl (''a: '' @ e)
      | Inr aV \<Rightarrow>
     (case parseBigIntDec (bInput st) of
        Inl e \<Rightarrow> Inl (''b: '' @ e)
      | Inr bV \<Rightarrow> Inr (pV, gV, aV, bV)))))"

subsection \<open>validateParams (lines 198-213)\<close>

definition setMessage :: "string \<Rightarrow> session \<Rightarrow> session" where
  "setMessage msg st = st\<lparr>msgBox := msg\<rparr>"

text \<open>The statement \<^verbatim>\<open>if (showMsgs) setMessage(msg); return false;\<close>.\<close>

definition reject :: "bool \<Rightarrow> string \<Rightarrow> session \<Rightarrow> (bool \<times> session) option" where
  "reject showMsgs msg st = Some (False, if showMsgs then setMessage msg st else st)"

definition validateParams :: "bool \<Rightarrow> session \<Rightarrow> (bool \<times> session) option" where
  "validateParams showMsgs st =
     (case readInputs st of
        Inl e \<Rightarrow> reject showMsgs e st
      | Inr (P, G, Asec, Bsec) \<Rightarrow>
          if P < 3 then reject showMsgs ''p harus >= 3.'' st
          else do {
            prime \<leftarrow> isProbablePrime P;
            if \<not> prime then reject showMsgs ''p tampaknya bukan prima.'' st
            else if G \<le> 1 \<or> G \<ge> P then
              reject showMsgs ''g harus dalam rentang 2 .. p-1.'' st
            else if Asec < 2 \<or> Asec \<ge> P - 1 then
              reject showMsgs ''a harus dalam rentang 2 .. p-2.'' st
            else if Bsec < 2 \<or> Bsec \<ge> P - 1 then
              reject showMsgs ''b harus dalam rentang 2 .. p-2.'' st
            else
              let st' = st\<lparr>st_p := P, st_g := G, st_a := Asec, st_b := Bsec\<rparr>
              in Some (True, if showMsgs then setMessage ''Parameter valid.'' st' else st')
          })"

subsection \<open>clearComputed, updateComputedBoxes (lines 219-225, 236-242)\<close>

definition clearComputed :: "session \<Rightarrow> session" where
  "clearComputed st =
     st\<lparr>st_A := None, st_B := None, sAlice := None, sBob := None,
        ABox := None, BBox := None, S1Box := None, S2Box := None\<rparr>"

definition updateComputedBoxes :: "session \<Rightarrow> session" where
  "updateComputedBoxes st =
     st\<lparr>ABox := (if stepIdx st \<ge> 3 \<and> st_A st \<noteq> None then st_A st else None),
        BBox := (if stepIdx st \<ge> 5 \<and> st_B st \<noteq> None then st_B st else None),
        S1Box := (if stepIdx st \<ge> 7 \<and> sAlice st \<noteq> None then sAlice st else None),
        S2Box := (if stepIdx st \<ge> 8 \<and> sBob st \<noteq> None then sBob st else None)\<rparr>"

text \<open>
  Step 9 of \<^verbatim>\<open>renderSteps\<close> (lines 313-319) shows whether the two keys match; the step
  is among those rendered, \<^verbatim>\<open>steps.slice(0, stepIdx)\<close>, once the cursor is 9.
  \<^term>\<open>Some ok\<close> is the flag \<^verbatim>\<open>ok\<close> of a rendered step 9.
\<close>

definition verification :: "session \<Rightarrow> bool option" where
  "verification st =
     (if stepIdx st \<ge> 9
      then Some (sAlice st \<noteq> None \<and> sBob st \<noteq> None \<and> sAlice st = sBob st)
      else None)"

subsection \<open>nextStep, prevStep, resetAll (lines 346-401)\<close>

text \<open>The \<^verbatim>\<open>switch (stepIdx)\<close> of \<^verbatim>\<open>nextStep\<close>, on the cursor already incremented.\<close>

definition stepSwitch :: "session \<Rightarrow> session option" where
  "stepSwitch st =
     (if stepIdx st = 3 then do {
        v \<leftarrow> modPow (st_g st) (st_a st) (st_p st);
        Some (st\<lparr>st_A := Some v\<rparr>)
      }
      else if stepIdx st = 5 then do {
        v \<leftarrow> modPow (st_g st) (st_b st) (st_p st);
        Some (st\<lparr>st_B := Some v\<rparr>)
      }
      else if stepIdx st = 7 then do {
        st' \<leftarrow> (case st_B st of
                 None \<Rightarrow> do {
                   v \<leftarrow> modPow (st_g st) (st_b st) (st_p st);
                   Some (st\<lparr>st_B := Some v\<rparr>)
                 }
               | Some _ \<Rightarrow> Some st);
        vB \<leftarrow> st_B st';
        v \<leftarrow> modPow vB (st_a st') (st_p st');
        Some (st'\<lparr>sAlice := Some v\<rparr>)
      }
      else if stepIdx st = 8 then do {
        st' \<leftarrow> (case st_A st of
                 None \<Rightarrow> do {
                   v \<leftarrow> modPow (st_g st) (st_a st) (st_p st);
                   Some (st\<lparr>st_A := Some v\<rparr>)
                 }
               | Some _ \<Rightarrow> Some st);
        vA \<leftarrow> st_A st';
        v \<leftarrow> modPow vA (st_b st') (st_p st');
        Some (st'\<lparr>sBob := Some v\<rparr>)
      }
      else Some st)"

definition nextStep :: "session \<Rightarrow> session option" where
  "nextStep st =
     do {
       (ok, st1) \<leftarrow> validateParams False st;
       if \<not> ok then Some (setMessage ''Perbaiki parameter terlebih dahulu.'' st1)
       else if stepIdx st1 \<ge> TOTAL_STEPS then Some st1
       else do {
         st2 \<leftarrow> stepSwitch (st1\<lparr>stepIdx := stepIdx st1 + 1\<rparr>);
         Some (updateComputedBoxes st2)
       }
     }"

definition prevStep :: "session \<Rightarrow> session" where
  "prevStep st =
     (if stepIdx st \<le> 0 then st
      else updateComputedBoxes (st\<lparr>stepIdx := stepIdx st - 1\<rparr>))"

definition resetAll :: "session \<Rightarrow> session" where
  "resetAll st =
     (let st1 = (case readInputs st of
                   Inr (P, G, Asec, Bsec) \<Rightarrow>
                     st\<lparr>st_p := P, st_g := G, st_a := Asec, st_b := Bsec\<rparr>
                 | Inl _ \<Rightarrow> st)
      in setMessage [] (clearComputed (st1\<lparr>stepIdx := 0\<rparr>)))"

text \<open>\<open>advance k\<close>: \<open>k\<close> successive calls of \<^verbatim>\<open>nextStep\<close>.\<close>

fun advance :: "nat \<Rightarrow> session \<Rightarrow> session option" where
  "advance 0 st = Some st"
| "advance (Suc k) st = nextStep st \<bind> advance k"

section \<open>Reference notions\<close>

text \<open>Primality of an integer, by the definition: no divisor strictly between 1 and \<open>n\<close>.\<close>

definition isPrime :: "int \<Rightarrow> bool" where
  "isPrime n = (2 \<le> n \<and> (\<forall>d\<in>{2..<n}. \<not> d dvd n))"

text \<open>
  The conditions \<^verbatim>\<open>validateParams\<close> puts on a parsed quadruple, with the bounds written
  as the closed ranges of the messages: \<open>g\<close> in 2 .. p-1, \<open>a\<close> and \<open>b\<close> in 2 .. p-2.
\<close>

definition paramsOk :: "int \<Rightarrow> int \<Rightarrow> int \<Rightarrow> int \<Rightarrow> bool" where
  "paramsOk P G Asec Bsec =
     (3 \<le> P \<and> isProbablePrime P = Some True \<and> 2 \<le> G \<and> G \<le> P - 1 \<and>
      2 \<le> Asec \<and> Asec \<le> P - 2 \<and> 2 \<le> Bsec \<and> Bsec \<le> P - 2)"

text \<open>
  The state that the declarations of the script give (lines 29-36) when the four fields
  hold the given texts: cursor 0, the quadruple of the declaration
  \<^verbatim>\<open>let p = 23n, g = 5n, a = 6n, b = 15n\<close>, no derived value, every box cleared. It is
  the state after the start-up calls of lines 512-514 when the texts are 23, 5, 6, 15 or
  fail validation; for other texts that validate, the start-up call of
  \<^verbatim>\<open>validateParams\<close> stores their values first.
\<close>

definition loaded :: "string \<Rightarrow> string \<Rightarrow> string \<Rightarrow> string \<Rightarrow> session" where
  "loaded pText gText aText bText =
     \<lparr>pInput = pText, gInput = gText, aInput = aText, bInput = bText, stepIdx = 0,
      st_p = 23, st_g = 5, st_a = 6, st_b = 15,
      st_A = None, st_B = None, sAlice = None, sBob = None, msgBox = [],
      ABox = None, BBox = None, S1Box = None, S2Box = None\<rparr>"

text \<open>
  The draws of \<^verbatim>\<open>randomBigIntBelow\<close> on a source \<open>r\<close>: \<open>kthDraw bound k r\<close> is the
  masked value of draw number \<open>k\<close> (from 0), and \<open>skipDraws k byteLen r\<close> is the source
  after \<open>k\<close> draws of \<open>byteLen\<close> bytes.
\<close>

definition byteLenOf :: "int \<Rightarrow> nat" where
  "byteLenOf bound = (bitLength bound + 7) div 8"

definition maskOf :: "int \<Rightarrow> int" where
  "maskOf bound = push_bit (bitLength bound) 1 - 1"

definition skipDraws :: "nat \<Rightarrow> nat \<Rightarrow> rng \<Rightarrow> rng" where
  "skipDraws k byteLen r = (\<lambda>i. r (i + k * byteLen))"

definition drawValue :: "nat \<Rightarrow> int \<Rightarrow> rng \<Rightarrow> int" where
  "drawValue byteLen msk r = bytesToBigInt (fst (getRandomValues byteLen r)) AND msk"

definition kthDraw :: "int \<Rightarrow> nat \<Rightarrow> rng \<Rightarrow> int" where
  "kthDraw bound k r =
     drawValue (byteLenOf bound) (maskOf bound) (skipDraws k (byteLenOf bound) r)"

subsection \<open>Prime factors and multiplicative order\<close>

text \<open>
  The set of the prime divisors of \<open>n\<close>, and the list \<^verbatim>\<open>primeFactorsDistinct\<close> builds
  from the remainder \<open>x\<close> and the list \<open>out\<close> that its second loop leaves.
\<close>

definition primeFactorsOf :: "int \<Rightarrow> int set" where
  "primeFactorsOf n = {q. isPrime q \<and> q dvd n}"

definition finish :: "int \<Rightarrow> int list \<Rightarrow> int list" where
  "finish x out = (if x > 1 then pushDistinct x out else out)"

text \<open>
  The multiplicative order of \<open>a\<close> modulo \<open>p\<close>: the least positive exponent \<open>k\<close> with
  \<open>a ^ k mod p = 1\<close>.
\<close>

definition ord :: "int \<Rightarrow> int \<Rightarrow> nat" where
  "ord p a = (LEAST k. 0 < k \<and> a ^ k mod p = 1)"

text \<open>
  Polynomials over the integers as lists of coefficients, the constant one first:
  evaluation, and the quotient of the synthetic division by \<open>x - r\<close>.
\<close>

fun peval :: "int list \<Rightarrow> int \<Rightarrow> int" where
  "peval [] x = 0"
| "peval (c # cs) x = c + x * peval cs x"

fun pquot :: "int \<Rightarrow> int list \<Rightarrow> int list" where
  "pquot r [] = []"
| "pquot r (c # cs) = (if cs = [] then [] else peval cs r # pquot r cs)"

text \<open>
  A random source on which \<^verbatim>\<open>randomBigIntBelow(bound)\<close> returns from every position: after
  any number \<open>n\<close> of bytes consumed, some later draw is below the bound.
\<close>

definition everAccepted :: "int \<Rightarrow> rng \<Rightarrow> bool" where
  "everAccepted bound r = (\<forall>n. \<exists>k. kthDraw bound k (\<lambda>i. r (i + n)) < bound)"

subsection \<open>Runs of the stepper\<close>

text \<open>
  A run is a sequence of \<^verbatim>\<open>nextStep\<close> (advance) and \<^verbatim>\<open>prevStep\<close> (retreat) calls from
  a state with cursor 0 and no derived value, which is what \<^verbatim>\<open>resetAll\<close>, an edit of a
  field and the start of the script leave. \<open>visited k ops st0\<close>: at some point of the run
  \<open>ops\<close> from \<open>st0\<close> the cursor was at least \<open>k\<close>.
\<close>

datatype stepOp = Advance | Retreat

fun applyOp :: "stepOp \<Rightarrow> session \<Rightarrow> session option" where
  "applyOp Advance st = nextStep st"
| "applyOp Retreat st = Some (prevStep st)"

fun run :: "stepOp list \<Rightarrow> session \<Rightarrow> session option" where
  "run [] st = Some st"
| "run (x # xs) st = applyOp x st \<bind> run xs"

definition runStart :: "session \<Rightarrow> bool" where
  "runStart st =
     (stepIdx st = 0 \<and> st_A st = None \<and> st_B st = None \<and> sAlice st = None \<and> sBob st = None)"

definition visited :: "int \<Rightarrow> stepOp list \<Rightarrow> session \<Rightarrow> bool" where
  "visited k ops st0 =
     (\<exists>ops1 ops2 st. ops = ops1 @ ops2 \<and> run ops1 st0 = Some st \<and> k \<le> stepIdx st)"

text \<open>
  The stepper in the words of the specification: on entering step 3, 5, 7 or 8 the derived
  value of that step is computed only if it is still unknown, and steps 7 and 8 first compute
  their prerequisite if it is unknown. It differs from \<^verbatim>\<open>nextStep\<close> in the four tests on
  the value of the step itself, which the source does not make.
\<close>

definition stepSwitch_computeOnce :: "session \<Rightarrow> session option" where
  "stepSwitch_computeOnce st =
     (if stepIdx st = 3 then
        (case st_A st of
           Some _ \<Rightarrow> Some st
         | None \<Rightarrow> do {
             v \<leftarrow> modPow (st_g st) (st_a st) (st_p st);
             Some (st\<lparr>st_A := Some v\<rparr>)
           })
      else if stepIdx st = 5 then
        (case st_B st of
           Some _ \<Rightarrow> Some st
         | None \<Rightarrow> do {
             v \<leftarrow> modPow (st_g st) (st_b st) (st_p st);
             Some (st\<lparr>st_B := Some v\<rparr>)
           })
      else if stepIdx st = 7 then do {
        st' \<leftarrow> (case st_B st of
                 None \<Rightarrow> do {
                   v \<leftarrow> modPow (st_g st) (st_b st) (st_p st);
                   Some (st\<lparr>st_B := Some v\<rparr>)
                 }
               | Some _ \<Rightarrow> Some st);
        case sAlice st' of
          Some _ \<Rightarrow> Some st'
        | None \<Rightarrow> do {
            vB \<leftarrow> st_B st';
            v \<leftarrow> modPow vB (st_a st') (st_p st');
            Some (st'\<lparr>sAlice := Some v\<rparr>)
          }
      }
      else if stepIdx st = 8 then do {
        st' \<leftarrow> (case st_A st of
                 None \<Rightarrow> do {
                   v \<leftarrow> modPow (st_g st) (st_a st) (st_p st);
                   Some (st\<lparr>st_A := Some v\<rparr>)
                 }
               | Some _ \<Rightarrow> Some st);
        case sBob st' of
          Some _ \<Rightarrow> Some st'
        | None \<Rightarrow> do {
            vA \<leftarrow> st_A st';
            v \<leftarrow> modPow vA (st_b st') (st_p st');
            Some (st'\<lparr>sBob := Some v\<rparr>)
          }
      }
      else Some st)"

definition nextStep_computeOnce :: "session \<Rightarrow> session option" where
  "nextStep_computeOnce st =
     do {
       (ok, st1) \<leftarrow> validateParams False st;
       if \<not> ok then Some (setMessage ''Perbaiki parameter terlebih dahulu.'' st1)
       else if stepIdx st1 \<ge> TOTAL_STEPS then Some st1
       else do {
         st2 \<leftarrow> stepSwitch_computeOnce (st1\<lparr>stepIdx := stepIdx st1 + 1\<rparr>);
         Some (updateComputedBoxes st2)
       }
     }"

text \<open>
  The derived values that are known are those of the quadruple \<open>(P, G, Asec, Bsec)\<close>, and a
  known key comes with its known prerequisite.
\<close>

definition memoSound :: "int \<Rightarrow> int \<Rightarrow> int \<Rightarrow> int \<Rightarrow> session \<Rightarrow> bool" where
  "memoSound P G Asec Bsec st =
     ((st_A st = None \<or> st_A st = Some (G ^ nat Asec mod P)) \<and>
      (st_B st = None \<or> st_B st = Some (G ^ nat Bsec mod P)) \<and>
      (sAlice st = None \<or>
         st_B st \<noteq> None \<and> sAlice st = Some ((G ^ nat Bsec mod P) ^ nat Asec mod P)) \<and>
      (sBob st = None \<or>
         st_A st \<noteq> None \<and> sBob st = Some ((G ^ nat Asec mod P) ^ nat Bsec mod P)))"

text \<open>
  The assignments to derived values that a call of \<^verbatim>\<open>nextStep\<close> in the state \<open>st\<close>
  executes, in order (lines 356-377): none when validation fails or the cursor is at the end,
  else those of the \<^verbatim>\<open>case\<close> of the incremented cursor.
\<close>

datatype derived = DA | DB | DSAlice | DSBob

definition computedBy :: "session \<Rightarrow> derived list" where
  "computedBy st =
     (case validateParams False st of
        Some (True, st1) \<Rightarrow>
          if stepIdx st1 \<ge> TOTAL_STEPS then []
          else if stepIdx st1 + 1 = 3 then [DA]
          else if stepIdx st1 + 1 = 5 then [DB]
          else if stepIdx st1 + 1 = 7 then (if st_B st1 = None then [DB] else []) @ [DSAlice]
          else if stepIdx st1 + 1 = 8 then (if st_A st1 = None then [DA] else []) @ [DSBob]
          else []
      | _ \<Rightarrow> [])"

section \<open>Properties of modPow\<close>

lemma smod_nonneg_eq_mod:
  fixes x m :: int
  assumes "0 \<le> x" "0 < m"
  shows "x smod m = x mod m"
  using assms by (simp add: signed_modulo_int_def sgn_if)

lemma normalize_base:
  fixes base m :: int
  assumes "0 < m"
  shows "((base smod m) + m) smod m = base mod m"
proof -
  have abs_lt: "\<bar>base\<bar> mod m < m" using assms by simp
  have abs_ge: "0 \<le> \<bar>base\<bar> mod m" using assms by simp
  have bound: "- m < base smod m"
  proof (cases "0 \<le> base")
    case True
    then have "base smod m = base mod m" using assms by (rule smod_nonneg_eq_mod)
    moreover have "0 \<le> base mod m" using assms by simp
    ultimately show ?thesis using assms by linarith
  next
    case False
    then have "base smod m = - (\<bar>base\<bar> mod m)"
      using assms by (simp add: signed_modulo_int_def sgn_if)
    then show ?thesis using abs_lt by simp
  qed
  then have "0 \<le> base smod m + m" by simp
  then have "((base smod m) + m) smod m = (base smod m + m) mod m"
    using assms by (rule smod_nonneg_eq_mod)
  also have "\<dots> = (base smod m) mod m" by simp
  also have "\<dots> = base mod m"
  proof -
    have "base = (base sdiv m) * m + base smod m"
      by (simp add: sdiv_mult_smod_eq)
    then have "base mod m = ((base sdiv m) * m + base smod m) mod m" by simp
    also have "\<dots> = (base smod m) mod m" by simp
    finally show ?thesis by simp
  qed
  finally show ?thesis .
qed

lemma modPow_loop_correct:
  fixes result b e m :: int
  assumes "0 < m" "0 \<le> result" "result < m" "0 \<le> b"
  shows "modPow_loop result b e m = (result * b ^ nat e) mod m"
  using assms
proof (induction result b e m rule: modPow_loop.induct)
  case (1 result b e m)
  show ?case
  proof (cases "e > 0")
    case False
    then show ?thesis using "1.prems" by (simp add: modPow_loop.simps)
  next
    case True
    define r' where "r' = (if e AND 1 \<noteq> 0 then (result * b) smod m else result)"
    define b' where "b' = (b * b) smod m"
    define e' where "e' = drop_bit 1 e"
    have sq: "b' = (b * b) mod m"
      using "1.prems" by (simp add: b'_def smod_nonneg_eq_mod)
    have b_nonneg: "0 \<le> b'" using sq "1.prems" by simp
    have r_eq: "r' = (if odd e then (result * b) mod m else result)"
      using "1.prems" by (simp add: r'_def and_one_eq mod_2_eq_odd smod_nonneg_eq_mod)
    have r_bounds: "0 \<le> r'" "r' < m"
      using "1.prems" by (simp_all add: r_eq)
    have step: "modPow_loop result b e m = modPow_loop r' b' e' m"
      using True by (subst modPow_loop.simps) (simp add: r'_def b'_def e'_def)
    have IH: "modPow_loop r' b' e' m = (r' * b' ^ nat e') mod m"
      using "1.IH" [OF True] "1.prems"(1) r_bounds b_nonneg
      unfolding r'_def b'_def e'_def by blast
    have e_split: "nat e = 2 * nat e' + (if odd e then 1 else 0)"
      using True by (auto simp: e'_def drop_bit_eq_div elim!: oddE evenE
          simp: nat_add_distrib nat_mult_distrib)
    have "(b' ^ nat e') mod m = ((b * b) ^ nat e') mod m"
      unfolding sq by (rule power_mod)
    also have "\<dots> = (b ^ (2 * nat e')) mod m"
      by (simp add: power_mult power2_eq_square)
    finally have pow_sq: "(b' ^ nat e') mod m = (b ^ (2 * nat e')) mod m" .
    have "(r' * b' ^ nat e') mod m = (r' mod m * (b' ^ nat e' mod m)) mod m"
      by (rule mod_mult_eq [symmetric])
    also have "\<dots> = (r' mod m * (b ^ (2 * nat e') mod m)) mod m"
      unfolding pow_sq ..
    also have "\<dots> = (r' * b ^ (2 * nat e')) mod m"
      by (rule mod_mult_eq)
    also have "\<dots> = (result * b ^ nat e) mod m"
    proof (cases "odd e")
      case True
      have "(r' * b ^ (2 * nat e')) mod m = ((result * b) mod m * b ^ (2 * nat e')) mod m"
        using True by (simp add: r_eq)
      also have "\<dots> = ((result * b) * b ^ (2 * nat e')) mod m"
        by (rule mod_mult_left_eq)
      also have "(result * b) * b ^ (2 * nat e') = result * b ^ nat e"
        using True by (simp add: e_split)
      finally show ?thesis .
    next
      case False
      then show ?thesis by (simp add: r_eq e_split)
    qed
    finally show ?thesis using step IH by simp
  qed
qed

lemma modPow_eq:
  fixes base exp m :: int
  assumes "1 \<le> m" "0 \<le> exp"
  shows "modPow base exp m = Some ((base ^ nat exp) mod m)"
proof (cases "m = 1")
  case True
  then show ?thesis by (simp add: modPow_def)
next
  case False
  with assms have m: "0 < m" "m \<noteq> 0" "m \<noteq> 1" "1 < m" by simp_all
  have nb: "((base smod m) + m) smod m = base mod m"
    using m(1) by (rule normalize_base)
  have "modPow_loop 1 (base mod m) exp m = (1 * (base mod m) ^ nat exp) mod m"
    using m by (intro modPow_loop_correct) simp_all
  then have "modPow_loop 1 (base mod m) exp m = (base ^ nat exp) mod m"
    by (simp add: power_mod)
  then show ?thesis using m by (simp add: modPow_def nb)
qed

section \<open>Totality of the primality test and of validation\<close>

lemma factorTwos_total:
  assumes "0 < d"
  shows "\<exists>d' s'. factorTwos d s = Some (d', s')"
  using assms
proof (induction "nat d" arbitrary: d s rule: less_induct)
  case less
  show ?case
  proof (cases "d AND 1 = 0")
    case False
    then show ?thesis by (subst factorTwos.simps) simp
  next
    case True
    then have ev: "even d" by (simp add: and_one_eq mod_2_eq_odd)
    with less.prems have half: "0 < drop_bit 1 d" "nat (drop_bit 1 d) < nat d"
      by (auto simp: drop_bit_eq_div elim!: evenE)
    from less.hyps [OF half(2) half(1)]
    obtain d' s' where "factorTwos (drop_bit 1 d) (s + 1) = Some (d', s')" by blast
    then show ?thesis using True by (subst factorTwos.simps) simp
  qed
qed

lemma modPow_total: "m \<noteq> 0 \<Longrightarrow> \<exists>x. modPow base e m = Some x"
  by (simp add: modPow_def)

lemma check_total: "n \<noteq> 0 \<Longrightarrow> \<exists>r. check n d s a = Some r"
  using modPow_total [of n a d] by (auto simp: check_def)

lemma checkBases_total: "n \<noteq> 0 \<Longrightarrow> \<exists>r. checkBases n d s as = Some r"
proof (induction as)
  case Nil
  then show ?case by auto
next
  case (Cons a as)
  from check_total [OF Cons.prems] obtain r where "check n d s a = Some r" by blast
  with Cons show ?case by auto
qed

lemma isProbablePrime_total: "\<exists>r. isProbablePrime n = Some r"
proof (cases "n < 2")
  case True
  then show ?thesis by (auto simp: isProbablePrime_def)
next
  case False
  then have "0 < n - 1" "n \<noteq> 0" by simp_all
  from factorTwos_total [OF this(1)] obtain d s where f: "factorTwos (n - 1) 0 = Some (d, s)"
    by blast
  from checkBases_total [OF \<open>n \<noteq> 0\<close>] obtain r where "checkBases n d s bases = Some r"
    by blast
  with f False show ?thesis
    by (auto simp: isProbablePrime_def split: option.splits)
qed

lemma validateParams_accept:
  assumes "readInputs st = Inr (P, G, Asec, Bsec)" "paramsOk P G Asec Bsec"
  shows "validateParams showMsgs st =
           Some (True, (if showMsgs then setMessage ''Parameter valid.'' else id)
                         (st\<lparr>st_p := P, st_g := G, st_a := Asec, st_b := Bsec\<rparr>))"
  using assms by (simp add: validateParams_def paramsOk_def Let_def)

lemma validateParams_reject_parse:
  assumes "readInputs st = Inl e"
  shows "validateParams showMsgs st = Some (False, if showMsgs then setMessage e st else st)"
  using assms by (simp add: validateParams_def reject_def)

lemma validateParams_reject_range:
  assumes "readInputs st = Inr (P, G, Asec, Bsec)" "\<not> paramsOk P G Asec Bsec"
  shows "\<exists>msg. validateParams showMsgs st =
           Some (False, if showMsgs then setMessage msg st else st)"
proof -
  obtain r where r: "isProbablePrime P = Some r" using isProbablePrime_total by blast
  show ?thesis
    using assms r by (cases r) (auto simp: validateParams_def paramsOk_def reject_def)
qed

lemma validateParams_True_iff:
  "(\<exists>st'. validateParams showMsgs st = Some (True, st')) \<longleftrightarrow>
   (\<exists>P G Asec Bsec. readInputs st = Inr (P, G, Asec, Bsec) \<and> paramsOk P G Asec Bsec)"
proof (cases "readInputs st")
  case (Inl e)
  then show ?thesis using validateParams_reject_parse [OF Inl] by simp
next
  case (Inr q)
  obtain P G Asec Bsec where q: "q = (P, G, Asec, Bsec)" by (cases q) auto
  show ?thesis
  proof (cases "paramsOk P G Asec Bsec")
    case True
    then show ?thesis using validateParams_accept [of st P G Asec Bsec] Inr q by auto
  next
    case False
    then show ?thesis using validateParams_reject_range [of st P G Asec Bsec showMsgs] Inr q
      by auto
  qed
qed

section \<open>Properties of the stepper\<close>

lemma readInputs_cong:
  assumes "pInput st' = pInput st" "gInput st' = gInput st" "aInput st' = aInput st"
    "bInput st' = bInput st"
  shows "readInputs st' = readInputs st"
  unfolding readInputs_def assms by (rule refl)

lemma nextStep_accept:
  assumes "readInputs st = Inr (P, G, Asec, Bsec)" "paramsOk P G Asec Bsec"
  shows "nextStep st =
           (if stepIdx st \<ge> 9 then Some (st\<lparr>st_p := P, st_g := G, st_a := Asec, st_b := Bsec\<rparr>)
            else stepSwitch (st\<lparr>st_p := P, st_g := G, st_a := Asec, st_b := Bsec,
                                stepIdx := stepIdx st + 1\<rparr>)
                   \<bind> (\<lambda>st2. Some (updateComputedBoxes st2)))"
  by (simp add: nextStep_def validateParams_accept [OF assms] TOTAL_STEPS_def)

lemma nextStep_reject:
  assumes "validateParams False st = Some (False, st')"
  shows "nextStep st = Some (st\<lparr>msgBox := ''Perbaiki parameter terlebih dahulu.''\<rparr>)"
proof (cases "readInputs st")
  case (Inl e)
  then show ?thesis
    by (simp add: nextStep_def validateParams_reject_parse setMessage_def)
next
  case (Inr q)
  obtain P G Asec Bsec where q: "readInputs st = Inr (P, G, Asec, Bsec)"
    using Inr by (cases q) auto
  have "\<not> paramsOk P G Asec Bsec"
    using assms validateParams_accept [OF q, of False] by auto
  from validateParams_reject_range [OF q this, of False]
  show ?thesis by (auto simp: nextStep_def setMessage_def)
qed

lemma stepSwitch_eq:
  assumes "1 \<le> st_p st" "0 \<le> st_a st" "0 \<le> st_b st"
  shows "stepSwitch st = Some
     (if stepIdx st = 3 then st\<lparr>st_A := Some (st_g st ^ nat (st_a st) mod st_p st)\<rparr>
      else if stepIdx st = 5 then st\<lparr>st_B := Some (st_g st ^ nat (st_b st) mod st_p st)\<rparr>
      else if stepIdx st = 7 then
        (let vB = (case st_B st of None \<Rightarrow> st_g st ^ nat (st_b st) mod st_p st | Some v \<Rightarrow> v)
         in st\<lparr>st_B := Some vB, sAlice := Some (vB ^ nat (st_a st) mod st_p st)\<rparr>)
      else if stepIdx st = 8 then
        (let vA = (case st_A st of None \<Rightarrow> st_g st ^ nat (st_a st) mod st_p st | Some v \<Rightarrow> v)
         in st\<lparr>st_A := Some vA, sBob := Some (vA ^ nat (st_b st) mod st_p st)\<rparr>)
      else st)"
  using assms by (auto simp: stepSwitch_def modPow_eq Let_def split: option.splits)

lemma nextStep_effect:
  assumes ri: "readInputs st = Inr (P, G, Asec, Bsec)" and ok: "paramsOk P G Asec Bsec"
    and lt: "stepIdx st < 9"
  shows "\<exists>st'. nextStep st = Some st' \<and> readInputs st' = Inr (P, G, Asec, Bsec) \<and>
           stepIdx st' = stepIdx st + 1 \<and>
           st_p st' = P \<and> st_g st' = G \<and> st_a st' = Asec \<and> st_b st' = Bsec \<and>
           st_A st' = (if stepIdx st = 2 then Some (G ^ nat Asec mod P)
                       else if stepIdx st = 7 \<and> st_A st = None then Some (G ^ nat Asec mod P)
                       else st_A st) \<and>
           st_B st' = (if stepIdx st = 4 then Some (G ^ nat Bsec mod P)
                       else if stepIdx st = 6 \<and> st_B st = None then Some (G ^ nat Bsec mod P)
                       else st_B st) \<and>
           sAlice st' = (if stepIdx st = 6
                         then Some ((case st_B st of None \<Rightarrow> G ^ nat Bsec mod P | Some v \<Rightarrow> v)
                                      ^ nat Asec mod P)
                         else sAlice st) \<and>
           sBob st' = (if stepIdx st = 7
                       then Some ((case st_A st of None \<Rightarrow> G ^ nat Asec mod P | Some v \<Rightarrow> v)
                                    ^ nat Bsec mod P)
                       else sBob st)"
proof -
  let ?st1 = "st\<lparr>st_p := P, st_g := G, st_a := Asec, st_b := Bsec, stepIdx := stepIdx st + 1\<rparr>"
  have pre: "1 \<le> st_p ?st1" "0 \<le> st_a ?st1" "0 \<le> st_b ?st1"
    using ok by (simp_all add: paramsOk_def)
  have ns: "nextStep st = stepSwitch ?st1 \<bind> (\<lambda>st2. Some (updateComputedBoxes st2))"
    using lt by (simp add: nextStep_accept [OF ri ok])
  have ri': "readInputs (updateComputedBoxes s) = Inr (P, G, Asec, Bsec)"
    if "pInput s = pInput st" "gInput s = gInput st" "aInput s = aInput st"
       "bInput s = bInput st" for s
  proof -
    have "readInputs (updateComputedBoxes s) = readInputs st"
      using that by (intro readInputs_cong) (simp_all add: updateComputedBoxes_def)
    then show ?thesis using ri by simp
  qed
  have fields:
    "stepIdx (updateComputedBoxes s) = stepIdx s" "st_p (updateComputedBoxes s) = st_p s"
    "st_g (updateComputedBoxes s) = st_g s" "st_a (updateComputedBoxes s) = st_a s"
    "st_b (updateComputedBoxes s) = st_b s" "st_A (updateComputedBoxes s) = st_A s"
    "st_B (updateComputedBoxes s) = st_B s" "sAlice (updateComputedBoxes s) = sAlice s"
    "sBob (updateComputedBoxes s) = sBob s" for s
    by (simp_all add: updateComputedBoxes_def)
  consider (a) "stepIdx st = 2" | (b) "stepIdx st = 4" | (c) "stepIdx st = 6"
    | (d) "stepIdx st = 7" | (e) "stepIdx st \<notin> {2, 4, 6, 7}" by auto
  then show ?thesis
  proof cases
    case a
    then show ?thesis unfolding ns stepSwitch_eq [OF pre] by (simp add: fields ri')
  next
    case b
    then show ?thesis unfolding ns stepSwitch_eq [OF pre] by (simp add: fields ri')
  next
    case c
    then show ?thesis unfolding ns stepSwitch_eq [OF pre]
      by (simp add: fields ri' Let_def split: option.split)
  next
    case d
    then show ?thesis unfolding ns stepSwitch_eq [OF pre]
      by (simp add: fields ri' Let_def split: option.split)
  next
    case e
    then show ?thesis unfolding ns stepSwitch_eq [OF pre] by (simp add: fields ri')
  qed
qed

lemma nextStep_at_end:
  assumes ri: "readInputs st = Inr (P, G, Asec, Bsec)" and ok: "paramsOk P G Asec Bsec"
    and "stepIdx st \<ge> 9" "st_p st = P" "st_g st = G" "st_a st = Asec" "st_b st = Bsec"
  shows "nextStep st = Some st"
  using assms(3-) by (simp add: nextStep_accept [OF ri ok])

lemma advance_nine:
  assumes ri: "readInputs st = Inr (P, G, Asec, Bsec)" and ok: "paramsOk P G Asec Bsec"
    and idx: "stepIdx st = 0"
  shows "\<exists>s9. advance 9 st = Some s9 \<and> stepIdx s9 = 9 \<and>
           readInputs s9 = Inr (P, G, Asec, Bsec) \<and>
           st_p s9 = P \<and> st_g s9 = G \<and> st_a s9 = Asec \<and> st_b s9 = Bsec \<and>
           st_A s9 = Some (G ^ nat Asec mod P) \<and> st_B s9 = Some (G ^ nat Bsec mod P) \<and>
           sAlice s9 = Some ((G ^ nat Bsec mod P) ^ nat Asec mod P) \<and>
           sBob s9 = Some ((G ^ nat Asec mod P) ^ nat Bsec mod P)"
proof -
  note eff = nextStep_effect [OF _ ok]
  from eff [OF ri] idx obtain s1 where s1: "nextStep st = Some s1"
    "readInputs s1 = Inr (P, G, Asec, Bsec)" "stepIdx s1 = 1" by auto
  from eff [OF s1(2)] s1(3) obtain s2 where s2: "nextStep s1 = Some s2"
    "readInputs s2 = Inr (P, G, Asec, Bsec)" "stepIdx s2 = 2" by auto
  from eff [OF s2(2)] s2(3) obtain s3 where s3: "nextStep s2 = Some s3"
    "readInputs s3 = Inr (P, G, Asec, Bsec)" "stepIdx s3 = 3"
    "st_A s3 = Some (G ^ nat Asec mod P)" by auto
  from eff [OF s3(2)] s3(3,4) obtain s4 where s4: "nextStep s3 = Some s4"
    "readInputs s4 = Inr (P, G, Asec, Bsec)" "stepIdx s4 = 4"
    "st_A s4 = Some (G ^ nat Asec mod P)" by auto
  from eff [OF s4(2)] s4(3,4) obtain s5 where s5: "nextStep s4 = Some s5"
    "readInputs s5 = Inr (P, G, Asec, Bsec)" "stepIdx s5 = 5"
    "st_A s5 = Some (G ^ nat Asec mod P)" "st_B s5 = Some (G ^ nat Bsec mod P)" by auto
  from eff [OF s5(2)] s5(3,4,5) obtain s6 where s6: "nextStep s5 = Some s6"
    "readInputs s6 = Inr (P, G, Asec, Bsec)" "stepIdx s6 = 6"
    "st_A s6 = Some (G ^ nat Asec mod P)" "st_B s6 = Some (G ^ nat Bsec mod P)" by auto
  from eff [OF s6(2)] s6(3,4,5) obtain s7 where s7: "nextStep s6 = Some s7"
    "readInputs s7 = Inr (P, G, Asec, Bsec)" "stepIdx s7 = 7"
    "st_A s7 = Some (G ^ nat Asec mod P)" "st_B s7 = Some (G ^ nat Bsec mod P)"
    "sAlice s7 = Some ((G ^ nat Bsec mod P) ^ nat Asec mod P)" by auto
  from eff [OF s7(2)] s7(3,4,5,6) obtain s8 where s8: "nextStep s7 = Some s8"
    "readInputs s8 = Inr (P, G, Asec, Bsec)" "stepIdx s8 = 8"
    "st_A s8 = Some (G ^ nat Asec mod P)" "st_B s8 = Some (G ^ nat Bsec mod P)"
    "sAlice s8 = Some ((G ^ nat Bsec mod P) ^ nat Asec mod P)"
    "sBob s8 = Some ((G ^ nat Asec mod P) ^ nat Bsec mod P)" by auto
  from eff [OF s8(2)] s8(3,4,5,6,7) obtain s9 where s9: "nextStep s8 = Some s9"
    "readInputs s9 = Inr (P, G, Asec, Bsec)" "stepIdx s9 = 9"
    "st_p s9 = P" "st_g s9 = G" "st_a s9 = Asec" "st_b s9 = Bsec"
    "st_A s9 = Some (G ^ nat Asec mod P)" "st_B s9 = Some (G ^ nat Bsec mod P)"
    "sAlice s9 = Some ((G ^ nat Bsec mod P) ^ nat Asec mod P)"
    "sBob s9 = Some ((G ^ nat Asec mod P) ^ nat Bsec mod P)" by auto
  have "advance 9 st = Some s9"
    using s1(1) s2(1) s3(1) s4(1) s5(1) s6(1) s7(1) s8(1) s9(1)
    by (simp add: eval_nat_numeral)
  with s9 show ?thesis by blast
qed

lemma keys_agree: "(x ^ m mod p) ^ n mod p = (x ^ n mod p) ^ m mod (p :: int)"
  by (simp add: power_mod flip: power_mult) (simp add: mult.commute)

section \<open>Properties of runs\<close>

lemma stepSwitch_computeOnce_eq:
  assumes "1 \<le> st_p st" "0 \<le> st_a st" "0 \<le> st_b st"
    and "memoSound (st_p st) (st_g st) (st_a st) (st_b st) st"
  shows "stepSwitch_computeOnce st = stepSwitch st"
proof -
  have upd: "st\<lparr>st_A := st_A st\<rparr> = st" "st\<lparr>st_B := st_B st\<rparr> = st"
    "st\<lparr>sAlice := sAlice st\<rparr> = st" "st\<lparr>sBob := sBob st\<rparr> = st" by simp_all
  consider (a) "stepIdx st = 3" | (b) "stepIdx st = 5" | (c) "stepIdx st = 7"
    | (d) "stepIdx st = 8" | (e) "stepIdx st \<notin> {3, 5, 7, 8}" by auto
  then show ?thesis
  proof cases
    case a
    show ?thesis
    proof (cases "st_A st")
      case None
      then show ?thesis using a by (simp add: stepSwitch_def stepSwitch_computeOnce_def)
    next
      case (Some v)
      then have "v = st_g st ^ nat (st_a st) mod st_p st"
        using assms(4) by (simp add: memoSound_def)
      then have "st\<lparr>st_A := Some (st_g st ^ nat (st_a st) mod st_p st)\<rparr> = st"
        using upd(1) Some by simp
      then show ?thesis using a Some assms(1-3)
        by (simp add: stepSwitch_def stepSwitch_computeOnce_def modPow_eq)
    qed
  next
    case b
    show ?thesis
    proof (cases "st_B st")
      case None
      then show ?thesis using b by (simp add: stepSwitch_def stepSwitch_computeOnce_def)
    next
      case (Some v)
      then have "v = st_g st ^ nat (st_b st) mod st_p st"
        using assms(4) by (simp add: memoSound_def)
      then have "st\<lparr>st_B := Some (st_g st ^ nat (st_b st) mod st_p st)\<rparr> = st"
        using upd(2) Some by simp
      then show ?thesis using b Some assms(1-3)
        by (simp add: stepSwitch_def stepSwitch_computeOnce_def modPow_eq)
    qed
  next
    case c
    show ?thesis
    proof (cases "sAlice st")
      case None
      then show ?thesis using c
        by (auto simp: stepSwitch_def stepSwitch_computeOnce_def split: option.splits
            bind_splits)
    next
      case (Some v)
      then obtain vB where vB: "st_B st = Some vB" "vB = st_g st ^ nat (st_b st) mod st_p st"
        "v = vB ^ nat (st_a st) mod st_p st"
        using assms(4) by (auto simp: memoSound_def)
      then have "st\<lparr>sAlice := Some (vB ^ nat (st_a st) mod st_p st)\<rparr> = st"
        using upd(3) Some by simp
      then show ?thesis using c Some vB(1) assms(1-3)
        by (simp add: stepSwitch_def stepSwitch_computeOnce_def modPow_eq)
    qed
  next
    case d
    show ?thesis
    proof (cases "sBob st")
      case None
      then show ?thesis using d
        by (auto simp: stepSwitch_def stepSwitch_computeOnce_def split: option.splits
            bind_splits)
    next
      case (Some v)
      then obtain vA where vA: "st_A st = Some vA" "vA = st_g st ^ nat (st_a st) mod st_p st"
        "v = vA ^ nat (st_b st) mod st_p st"
        using assms(4) by (auto simp: memoSound_def)
      then have "st\<lparr>sBob := Some (vA ^ nat (st_b st) mod st_p st)\<rparr> = st"
        using upd(4) Some by simp
      then show ?thesis using d Some vA(1) assms(1-3)
        by (simp add: stepSwitch_def stepSwitch_computeOnce_def modPow_eq)
    qed
  next
    case e
    then show ?thesis by (simp add: stepSwitch_def stepSwitch_computeOnce_def)
  qed
qed

lemma run_append: "run (xs @ ys) st = run xs st \<bind> run ys"
proof (induction xs arbitrary: st)
  case Nil
  show ?case by simp
next
  case (Cons a xs)
  show ?case by (cases "applyOp a st") (simp_all add: Cons)
qed

lemma run_snoc: "run (xs @ [x]) st = run xs st \<bind> applyOp x"
proof (cases "run xs st")
  case None
  then show ?thesis by (simp add: run_append)
next
  case (Some s)
  then show ?thesis by (cases "applyOp x s") (simp_all add: run_append)
qed

lemma visited_Nil: "visited k [] st0 = (k \<le> stepIdx st0)"
  by (simp add: visited_def)

lemma visited_current:
  assumes "run ops st0 = Some st" "k \<le> stepIdx st"
  shows "visited k ops st0"
  unfolding visited_def using assms by (intro exI [of _ ops] exI [of _ "[]"] exI [of _ st]) simp

lemma visited_snoc:
  assumes "run ops st0 = Some st" "applyOp x st = Some st'"
  shows "visited k (ops @ [x]) st0 = (visited k ops st0 \<or> k \<le> stepIdx st')"
proof
  assume "visited k (ops @ [x]) st0"
  then obtain ops1 ops2 s where s: "ops @ [x] = ops1 @ ops2" "run ops1 st0 = Some s"
    "k \<le> stepIdx s" unfolding visited_def by blast
  show "visited k ops st0 \<or> k \<le> stepIdx st'"
  proof (cases ops2 rule: rev_cases)
    case Nil
    with s(1) have "ops1 = ops @ [x]" by simp
    with s(2) assms have "s = st'" by (simp add: run_snoc)
    with s(3) show ?thesis by simp
  next
    case (snoc ys y)
    with s(1) have "ops = ops1 @ ys" by simp
    with s(2,3) show ?thesis unfolding visited_def by blast
  qed
next
  assume "visited k ops st0 \<or> k \<le> stepIdx st'"
  then show "visited k (ops @ [x]) st0"
  proof
    assume "visited k ops st0"
    then obtain ops1 ops2 s where "ops = ops1 @ ops2" "run ops1 st0 = Some s" "k \<le> stepIdx s"
      unfolding visited_def by blast
    then show ?thesis unfolding visited_def
      by (intro exI [of _ ops1] exI [of _ "ops2 @ [x]"] exI [of _ s]) simp
  next
    assume "k \<le> stepIdx st'"
    moreover have "run (ops @ [x]) st0 = Some st'" using assms by (simp add: run_snoc)
    ultimately show ?thesis by (rule visited_current [rotated])
  qed
qed

lemma prevStep_fields:
  "readInputs (prevStep st) = readInputs st"
  "stepIdx (prevStep st) = (if stepIdx st \<le> 0 then stepIdx st else stepIdx st - 1)"
  "st_p (prevStep st) = st_p st" "st_g (prevStep st) = st_g st"
  "st_a (prevStep st) = st_a st" "st_b (prevStep st) = st_b st"
  "st_A (prevStep st) = st_A st" "st_B (prevStep st) = st_B st"
  "sAlice (prevStep st) = sAlice st" "sBob (prevStep st) = sBob st"
proof -
  show "readInputs (prevStep st) = readInputs st"
    by (rule readInputs_cong) (simp_all add: prevStep_def updateComputedBoxes_def)
qed (simp_all add: prevStep_def updateComputedBoxes_def)

lemma run_valid_invariant:
  assumes start: "runStart st0" and ri: "readInputs st0 = Inr (P, G, Asec, Bsec)"
    and ok: "paramsOk P G Asec Bsec"
  shows "\<exists>st. run ops st0 = Some st \<and> readInputs st = Inr (P, G, Asec, Bsec) \<and>
           0 \<le> stepIdx st \<and> stepIdx st \<le> 9 \<and>
           (visited 1 ops st0 \<longrightarrow>
              st_p st = P \<and> st_g st = G \<and> st_a st = Asec \<and> st_b st = Bsec) \<and>
           st_A st = (if visited 3 ops st0 then Some (G ^ nat Asec mod P) else None) \<and>
           st_B st = (if visited 5 ops st0 then Some (G ^ nat Bsec mod P) else None) \<and>
           sAlice st = (if visited 7 ops st0
                        then Some ((G ^ nat Bsec mod P) ^ nat Asec mod P) else None) \<and>
           sBob st = (if visited 8 ops st0
                      then Some ((G ^ nat Asec mod P) ^ nat Bsec mod P) else None)"
proof (induction ops rule: rev_induct)
  case Nil
  from start ri show ?case by (simp add: runStart_def visited_Nil)
next
  case (snoc x xs)
  then obtain st where st: "run xs st0 = Some st" "readInputs st = Inr (P, G, Asec, Bsec)"
    "0 \<le> stepIdx st" "stepIdx st \<le> 9"
    "visited 1 xs st0 \<longrightarrow> st_p st = P \<and> st_g st = G \<and> st_a st = Asec \<and> st_b st = Bsec"
    "st_A st = (if visited 3 xs st0 then Some (G ^ nat Asec mod P) else None)"
    "st_B st = (if visited 5 xs st0 then Some (G ^ nat Bsec mod P) else None)"
    "sAlice st = (if visited 7 xs st0 then Some ((G ^ nat Bsec mod P) ^ nat Asec mod P) else None)"
    "sBob st = (if visited 8 xs st0 then Some ((G ^ nat Asec mod P) ^ nat Bsec mod P) else None)"
    by blast
  have cur: "visited k xs st0" if "k \<le> stepIdx st" for k
    using visited_current [OF st(1) that] .
  show ?case
  proof (cases x)
    case Retreat
    have ap: "applyOp x st = Some (prevStep st)" using Retreat by simp
    have run': "run (xs @ [x]) st0 = Some (prevStep st)" using st(1) ap by (simp add: run_snoc)
    have vis: "visited k (xs @ [x]) st0 = visited k xs st0" for k
      using cur [of k] by (auto simp: visited_snoc [OF st(1) ap] prevStep_fields split: if_splits)
    show ?thesis
      using run' st(2-) by (intro exI [of _ "prevStep st"]) (simp add: vis prevStep_fields)
  next
    case Advance
    show ?thesis
    proof (cases "stepIdx st < 9")
      case True
      from nextStep_effect [OF st(2) ok True] obtain st' where st': "nextStep st = Some st'"
        "readInputs st' = Inr (P, G, Asec, Bsec)" "stepIdx st' = stepIdx st + 1"
        "st_p st' = P" "st_g st' = G" "st_a st' = Asec" "st_b st' = Bsec"
        "st_A st' = (if stepIdx st = 2 then Some (G ^ nat Asec mod P)
                       else if stepIdx st = 7 \<and> st_A st = None then Some (G ^ nat Asec mod P)
                       else st_A st)"
        "st_B st' = (if stepIdx st = 4 then Some (G ^ nat Bsec mod P)
                       else if stepIdx st = 6 \<and> st_B st = None then Some (G ^ nat Bsec mod P)
                       else st_B st)"
        "sAlice st' = (if stepIdx st = 6
                         then Some ((case st_B st of None \<Rightarrow> G ^ nat Bsec mod P | Some v \<Rightarrow> v)
                                      ^ nat Asec mod P)
                         else sAlice st)"
        "sBob st' = (if stepIdx st = 7
                       then Some ((case st_A st of None \<Rightarrow> G ^ nat Asec mod P | Some v \<Rightarrow> v)
                                    ^ nat Bsec mod P)
                       else sBob st)" by blast
      have ap: "applyOp x st = Some st'" using Advance st'(1) by simp
      have run': "run (xs @ [x]) st0 = Some st'" using st(1) ap by (simp add: run_snoc)
      have vis: "visited k (xs @ [x]) st0 = (visited k xs st0 \<or> k \<le> stepIdx st + 1)" for k
        by (simp add: visited_snoc [OF st(1) ap] st'(3))
      have A: "st_A st' = (if visited 3 (xs @ [x]) st0 then Some (G ^ nat Asec mod P) else None)"
        using cur [of 3] st(6) by (auto simp: st'(8) vis)
      have B: "st_B st' = (if visited 5 (xs @ [x]) st0 then Some (G ^ nat Bsec mod P) else None)"
        using cur [of 5] st(7) by (auto simp: st'(9) vis)
      have SA: "sAlice st' = (if visited 7 (xs @ [x]) st0
          then Some ((G ^ nat Bsec mod P) ^ nat Asec mod P) else None)"
        using cur [of 7] cur [of 5] st(7,8) by (auto simp: st'(10) vis)
      have SB: "sBob st' = (if visited 8 (xs @ [x]) st0
          then Some ((G ^ nat Asec mod P) ^ nat Bsec mod P) else None)"
        using cur [of 8] cur [of 3] st(6,9) by (auto simp: st'(11) vis)
      show ?thesis
        using run' st'(2-7) st(3,4) True A B SA SB by (intro exI [of _ st']) simp
    next
      case False
      with st(4) have nine: "stepIdx st = 9" by simp
      with st(5) cur [of 1] have q: "st_p st = P" "st_g st = G" "st_a st = Asec" "st_b st = Bsec"
        by simp_all
      have "nextStep st = Some st"
        using nine q by (intro nextStep_at_end [OF st(2) ok]) simp_all
      then have ap: "applyOp x st = Some st" using Advance by simp
      have run': "run (xs @ [x]) st0 = Some st" using st(1) ap by (simp add: run_snoc)
      have vis: "visited k (xs @ [x]) st0 = visited k xs st0" for k
        using cur [of k] by (auto simp: visited_snoc [OF st(1) ap])
      show ?thesis
        using run' st(2-) by (intro exI [of _ st]) (simp add: vis)
    qed
  qed
qed

lemma nextStep_invalid:
  assumes "\<not> (\<exists>P G Asec Bsec. readInputs st = Inr (P, G, Asec, Bsec) \<and> paramsOk P G Asec Bsec)"
  shows "nextStep st = Some (st\<lparr>msgBox := ''Perbaiki parameter terlebih dahulu.''\<rparr>)"
proof -
  have "\<exists>st'. validateParams False st = Some (False, st')"
  proof (cases "readInputs st")
    case (Inl e)
    then show ?thesis by (simp add: validateParams_reject_parse)
  next
    case (Inr q)
    obtain P G Asec Bsec where q: "readInputs st = Inr (P, G, Asec, Bsec)"
      using Inr by (cases q) auto
    with assms have "\<not> paramsOk P G Asec Bsec" by simp
    from validateParams_reject_range [OF q this, of False] show ?thesis by auto
  qed
  then show ?thesis using nextStep_reject by blast
qed

lemma run_invalid_invariant:
  assumes start: "runStart st0"
    and bad: "\<not> (\<exists>P G Asec Bsec. readInputs st0 = Inr (P, G, Asec, Bsec) \<and>
               paramsOk P G Asec Bsec)"
  shows "\<exists>st. run ops st0 = Some st \<and> readInputs st = readInputs st0 \<and> stepIdx st = 0 \<and>
           st_A st = None \<and> st_B st = None \<and> sAlice st = None \<and> sBob st = None"
proof (induction ops rule: rev_induct)
  case Nil
  from start show ?case by (simp add: runStart_def)
next
  case (snoc x xs)
  then obtain st where st: "run xs st0 = Some st" "readInputs st = readInputs st0"
    "stepIdx st = 0" "st_A st = None" "st_B st = None" "sAlice st = None" "sBob st = None"
    by blast
  show ?case
  proof (cases x)
    case Retreat
    then have "run (xs @ [x]) st0 = Some (prevStep st)" using st(1) by (simp add: run_snoc)
    with st(2-) show ?thesis by (intro exI [of _ "prevStep st"]) (simp add: prevStep_fields)
  next
    case Advance
    let ?st' = "st\<lparr>msgBox := ''Perbaiki parameter terlebih dahulu.''\<rparr>"
    have "nextStep st = Some ?st'" using bad st(2) by (intro nextStep_invalid) simp
    then have "run (xs @ [x]) st0 = Some ?st'" using st(1) Advance by (simp add: run_snoc)
    moreover have "readInputs ?st' = readInputs st" by (rule readInputs_cong) simp_all
    ultimately show ?thesis using st(2-) by (intro exI [of _ ?st']) simp
  qed
qed

lemma run_invalid_not_visited:
  assumes start: "runStart st0"
    and bad: "\<not> (\<exists>P G Asec Bsec. readInputs st0 = Inr (P, G, Asec, Bsec) \<and>
               paramsOk P G Asec Bsec)"
    and k: "0 < k"
  shows "\<not> visited k ops st0"
proof
  assume "visited k ops st0"
  then obtain ops1 s where s: "run ops1 st0 = Some s" "k \<le> stepIdx s"
    unfolding visited_def by blast
  from run_invalid_invariant [OF start bad, of ops1] s(1) have "stepIdx s = 0" by auto
  with s(2) k show False by simp
qed

lemma visited_mono:
  assumes "k \<le> k'" "visited k' ops st0"
  shows "visited k ops st0"
proof -
  from assms(2) obtain ops1 ops2 st where "ops = ops1 @ ops2" "run ops1 st0 = Some st"
    "k' \<le> stepIdx st" unfolding visited_def by blast
  with assms(1) have "ops = ops1 @ ops2 \<and> run ops1 st0 = Some st \<and> k \<le> stepIdx st"
    by simp
  then show ?thesis unfolding visited_def by blast
qed

lemma nextStep_computeOnce_accept:
  assumes "readInputs st = Inr (P, G, Asec, Bsec)" "paramsOk P G Asec Bsec"
  shows "nextStep_computeOnce st =
           (if stepIdx st \<ge> 9 then Some (st\<lparr>st_p := P, st_g := G, st_a := Asec, st_b := Bsec\<rparr>)
            else stepSwitch_computeOnce (st\<lparr>st_p := P, st_g := G, st_a := Asec, st_b := Bsec,
                                stepIdx := stepIdx st + 1\<rparr>)
                   \<bind> (\<lambda>st2. Some (updateComputedBoxes st2)))"
  by (simp add: nextStep_computeOnce_def validateParams_accept [OF assms] TOTAL_STEPS_def)

lemma nextStep_computeOnce_eq:
  assumes "\<And>P G Asec Bsec. readInputs st = Inr (P, G, Asec, Bsec) \<Longrightarrow> paramsOk P G Asec Bsec
             \<Longrightarrow> memoSound P G Asec Bsec st"
  shows "nextStep st = nextStep_computeOnce st"
proof (cases "\<exists>P G Asec Bsec. readInputs st = Inr (P, G, Asec, Bsec) \<and> paramsOk P G Asec Bsec")
  case True
  then obtain P G Asec Bsec where ri: "readInputs st = Inr (P, G, Asec, Bsec)"
    and ok: "paramsOk P G Asec Bsec" by blast
  let ?st1 = "st\<lparr>st_p := P, st_g := G, st_a := Asec, st_b := Bsec, stepIdx := stepIdx st + 1\<rparr>"
  have "memoSound P G Asec Bsec ?st1"
    using assms [OF ri ok] by (simp add: memoSound_def)
  then have "memoSound (st_p ?st1) (st_g ?st1) (st_a ?st1) (st_b ?st1) ?st1" by simp
  moreover have "1 \<le> st_p ?st1" "0 \<le> st_a ?st1" "0 \<le> st_b ?st1"
    using ok by (simp_all add: paramsOk_def)
  ultimately have "stepSwitch_computeOnce ?st1 = stepSwitch ?st1"
    by (intro stepSwitch_computeOnce_eq)
  then show ?thesis
    by (simp only: nextStep_accept [OF ri ok] nextStep_computeOnce_accept [OF ri ok])
next
  case False
  then have "\<not> (\<exists>st'. validateParams False st = Some (True, st'))"
    using validateParams_True_iff [of False st] by simp
  then show ?thesis
    by (cases "validateParams False st")
      (auto simp: nextStep_def nextStep_computeOnce_def)
qed

lemma computedBy_sound:
  assumes "nextStep st = Some st'"
  shows "(DA \<notin> set (computedBy st) \<longrightarrow> st_A st' = st_A st) \<and>
         (DB \<notin> set (computedBy st) \<longrightarrow> st_B st' = st_B st) \<and>
         (DSAlice \<notin> set (computedBy st) \<longrightarrow> sAlice st' = sAlice st) \<and>
         (DSBob \<notin> set (computedBy st) \<longrightarrow> sBob st' = sBob st)"
proof (cases "\<exists>P G Asec Bsec. readInputs st = Inr (P, G, Asec, Bsec) \<and> paramsOk P G Asec Bsec")
  case True
  then obtain P G Asec Bsec where ri: "readInputs st = Inr (P, G, Asec, Bsec)"
    and ok: "paramsOk P G Asec Bsec" by blast
  show ?thesis
  proof (cases "stepIdx st < 9")
    case True
    from nextStep_effect [OF ri ok True] assms
    have "st_A st' = (if stepIdx st = 2 then Some (G ^ nat Asec mod P)
                       else if stepIdx st = 7 \<and> st_A st = None then Some (G ^ nat Asec mod P)
                       else st_A st)"
      "st_B st' = (if stepIdx st = 4 then Some (G ^ nat Bsec mod P)
                       else if stepIdx st = 6 \<and> st_B st = None then Some (G ^ nat Bsec mod P)
                       else st_B st)"
      "sAlice st' = (if stepIdx st = 6
                         then Some ((case st_B st of None \<Rightarrow> G ^ nat Bsec mod P | Some v \<Rightarrow> v)
                                      ^ nat Asec mod P)
                         else sAlice st)"
      "sBob st' = (if stepIdx st = 7
                       then Some ((case st_A st of None \<Rightarrow> G ^ nat Asec mod P | Some v \<Rightarrow> v)
                                    ^ nat Bsec mod P)
                       else sBob st)" by auto
    then show ?thesis
      using True
      by (auto simp: computedBy_def validateParams_accept [OF ri ok] TOTAL_STEPS_def)
  next
    case False
    with assms show ?thesis by (auto simp: nextStep_accept [OF ri ok])
  qed
next
  case False
  from nextStep_invalid [OF this] assms show ?thesis by auto
qed

section \<open>Concrete sessions\<close>

lemmas parse_eval = parseBigIntDec_def trim_def isWhiteSpace_def isDigit_def
  bigIntOfDigits_def digitValue_def

lemma readInputs_loaded:
  "readInputs (loaded ''23'' ''5'' ''6'' ''15'') = Inr (23, 5, 6, 15)"
  "readInputs (loaded ''15'' ''5'' ''6'' ''15'') = Inr (15, 5, 6, 15)"
  "readInputs (loaded ''2'' ''5'' ''6'' ''15'') = Inr (2, 5, 6, 15)"
  by (simp_all add: readInputs_def loaded_def parse_eval)

lemma isProbablePrime_small:
  "isProbablePrime 2 = Some True" "isProbablePrime 15 = Some False"
  "isProbablePrime 23 = Some True"
  by (simp_all add: isProbablePrime_def smallPrimes_def signed_modulo_int_def)

lemma paramsOk_23: "paramsOk 23 5 6 15"
  by (simp add: paramsOk_def isProbablePrime_small)

lemma isPrime_2: "isPrime 2"
  by (simp add: isPrime_def)

lemma isPrime_23: "isPrime 23"
  by code_simp

lemma run_three_advances_retreat:
  "\<exists>st. run [Advance, Advance, Advance, Retreat] (loaded ''23'' ''5'' ''6'' ''15'') = Some st \<and>
     stepIdx st = 2 \<and> st_A st = Some 8 \<and> readInputs st = Inr (23, 5, 6, 15)"
proof -
  let ?s0 = "loaded ''23'' ''5'' ''6'' ''15''"
  note eff = nextStep_effect [OF _ paramsOk_23]
  have idx: "stepIdx ?s0 = 0" by (simp add: loaded_def)
  from eff [OF readInputs_loaded(1)] idx obtain s1 where s1: "nextStep ?s0 = Some s1"
    "readInputs s1 = Inr (23, 5, 6, 15)" "stepIdx s1 = 1" by auto
  from eff [OF s1(2)] s1(3) obtain s2 where s2: "nextStep s1 = Some s2"
    "readInputs s2 = Inr (23, 5, 6, 15)" "stepIdx s2 = 2" by auto
  from eff [OF s2(2)] s2(3) obtain s3 where s3: "nextStep s2 = Some s3"
    "readInputs s3 = Inr (23, 5, 6, 15)" "stepIdx s3 = 3"
    "st_A s3 = Some (5 ^ nat 6 mod 23)" by auto
  have "run [Advance, Advance, Advance, Retreat] ?s0 = Some (prevStep s3)"
    using s1(1) s2(1) s3(1) by simp
  moreover have "st_A (prevStep s3) = Some 8" using s3(4) by (simp add: prevStep_fields)
  ultimately show ?thesis using s3(2,3) by (simp add: prevStep_fields)
qed

subsection \<open>A composite number that passes every base\<close>

lemma psp_trial: "trialDivision 341550071728321 smallPrimes = None"
  by code_simp

lemma psp_factorTwos: "factorTwos 341550071728320 0 = Some (5336719870755, 6)"
  by code_simp

lemma psp_check_2: "check 341550071728321 5336719870755 6 2 = Some True"
  by code_simp

lemma psp_check_3: "check 341550071728321 5336719870755 6 3 = Some True"
  by code_simp

lemma psp_check_5: "check 341550071728321 5336719870755 6 5 = Some True"
  by code_simp

lemma psp_check_7: "check 341550071728321 5336719870755 6 7 = Some True"
  by code_simp

lemma psp_check_11: "check 341550071728321 5336719870755 6 11 = Some True"
  by code_simp

lemma psp_check_13: "check 341550071728321 5336719870755 6 13 = Some True"
  by code_simp

lemma psp_check_17: "check 341550071728321 5336719870755 6 17 = Some True"
  by code_simp

lemma psp_accepted: "isProbablePrime 341550071728321 = Some True"
  by (simp add: isProbablePrime_def psp_trial psp_factorTwos bases_def
      psp_check_2 psp_check_3 psp_check_5 psp_check_7 psp_check_11 psp_check_13 psp_check_17)

section \<open>Properties of the sampler\<close>

lemma drawLoop_unfold:
  "drawLoop maxExclusive byteLen msk r =
     (if drawValue byteLen msk r < maxExclusive
      then Some (drawValue byteLen msk r, skipDraws 1 byteLen r)
      else drawLoop maxExclusive byteLen msk (skipDraws 1 byteLen r))"
  by (subst drawLoop.simps)
    (simp add: drawValue_def skipDraws_def getRandomValues_def Let_def)

lemma skipDraws_add: "skipDraws j n (skipDraws k n r) = skipDraws (j + k) n r"
  by (simp add: skipDraws_def add_mult_distrib add.assoc)

lemma skipDraws_0: "skipDraws 0 n r = r"
  by (simp add: skipDraws_def)

lemma drawLoop_first_accepted:
  assumes "drawValue byteLen msk (skipDraws k byteLen r) < maxExclusive"
    and "\<forall>j<k. \<not> drawValue byteLen msk (skipDraws j byteLen r) < maxExclusive"
  shows "drawLoop maxExclusive byteLen msk r =
           Some (drawValue byteLen msk (skipDraws k byteLen r), skipDraws (Suc k) byteLen r)"
  using assms
proof (induction k arbitrary: r)
  case 0
  then show ?case by (subst drawLoop_unfold) (simp add: skipDraws_0)
next
  case (Suc k)
  have rej: "\<not> drawValue byteLen msk r < maxExclusive"
    using Suc.prems(2) [rule_format, of 0] by (simp add: skipDraws_0)
  have acc: "drawValue byteLen msk (skipDraws k byteLen (skipDraws 1 byteLen r)) < maxExclusive"
    using Suc.prems(1) by (simp add: skipDraws_add)
  have rejs: "\<forall>j<k. \<not> drawValue byteLen msk (skipDraws j byteLen (skipDraws 1 byteLen r))
                 < maxExclusive"
    using Suc.prems(2) by (auto simp: skipDraws_add)
  from Suc.IH [OF acc rejs] rej show ?case
    by (subst drawLoop_unfold) (simp add: skipDraws_add)
qed

lemma drawLoop_returns_accepted:
  assumes "drawLoop maxExclusive byteLen msk r = Some y"
  shows "\<exists>k. drawValue byteLen msk (skipDraws k byteLen r) < maxExclusive \<and>
           fst y = drawValue byteLen msk (skipDraws k byteLen r)"
proof (rule drawLoop.raw_induct [where P = "\<lambda>mx bl ms s z.
    \<exists>k. drawValue bl ms (skipDraws k bl s) < mx \<and> fst z = drawValue bl ms (skipDraws k bl s)",
    OF _ assms])
  fix f :: "int \<Rightarrow> nat \<Rightarrow> int \<Rightarrow> rng \<Rightarrow> (int \<times> rng) option"
    and mx bl ms s z
  assume IH: "\<And>mx bl ms s z. f mx bl ms s = Some z \<Longrightarrow>
      \<exists>k. drawValue bl ms (skipDraws k bl s) < mx \<and> fst z = drawValue bl ms (skipDraws k bl s)"
    and body: "(case getRandomValues bl s of
        (bytes, r') \<Rightarrow>
          let val = bytesToBigInt bytes AND ms
          in if val < mx then Some (val, r') else f mx bl ms r') = Some z"
  show "\<exists>k. drawValue bl ms (skipDraws k bl s) < mx \<and> fst z = drawValue bl ms (skipDraws k bl s)"
  proof (cases "drawValue bl ms s < mx")
    case True
    then have "fst z = drawValue bl ms s"
      using body by (auto simp: drawValue_def getRandomValues_def Let_def)
    with True have "drawValue bl ms (skipDraws 0 bl s) < mx \<and>
        fst z = drawValue bl ms (skipDraws 0 bl s)" by (simp add: skipDraws_0)
    then show ?thesis ..
  next
    case False
    then have "f mx bl ms (skipDraws 1 bl s) = Some z"
      using body by (simp add: drawValue_def getRandomValues_def Let_def skipDraws_def)
    from IH [OF this] obtain k where
      "drawValue bl ms (skipDraws k bl (skipDraws 1 bl s)) < mx"
      "fst z = drawValue bl ms (skipDraws k bl (skipDraws 1 bl s))" by blast
    then have "drawValue bl ms (skipDraws (k + 1) bl s) < mx \<and>
        fst z = drawValue bl ms (skipDraws (k + 1) bl s)" by (simp add: skipDraws_add)
    then show ?thesis ..
  qed
qed

lemma drawValue_nonneg: "0 \<le> msk \<Longrightarrow> 0 \<le> drawValue byteLen msk r"
  by (simp add: drawValue_def)

lemma maskOf_nonneg: "0 \<le> maskOf bound"
  by (simp add: maskOf_def push_bit_eq_mult)

lemma randomBigIntBelow_pos:
  "0 < bound \<Longrightarrow> randomBigIntBelow bound r = drawLoop bound (byteLenOf bound) (maskOf bound) r"
  by (simp add: randomBigIntBelow_def byteLenOf_def maskOf_def Let_def)

lemma randomBigIntBelow_range:
  assumes "0 < bound" "randomBigIntBelow bound r = Some (v, r')"
  shows "0 \<le> v \<and> v < bound"
proof -
  from assms have "drawLoop bound (byteLenOf bound) (maskOf bound) r = Some (v, r')"
    by (simp add: randomBigIntBelow_pos)
  from drawLoop_returns_accepted [OF this] show ?thesis
    using drawValue_nonneg [OF maskOf_nonneg] by auto
qed

lemma randomBigIntBelow_first_accepted:
  assumes "0 < bound" "kthDraw bound k r < bound" "\<forall>j<k. \<not> kthDraw bound j r < bound"
  shows "randomBigIntBelow bound r =
           Some (kthDraw bound k r, skipDraws (Suc k) (byteLenOf bound) r)"
  using assms drawLoop_first_accepted [of "byteLenOf bound" "maskOf bound" k r bound]
  by (simp add: randomBigIntBelow_pos kthDraw_def)

lemma randomBigIntBelow_never_accepted:
  assumes "0 < bound" "\<forall>k. \<not> kthDraw bound k r < bound"
  shows "randomBigIntBelow bound r = None"
proof (rule ccontr)
  assume "randomBigIntBelow bound r \<noteq> None"
  then obtain y where "drawLoop bound (byteLenOf bound) (maskOf bound) r = Some y"
    using assms(1) by (auto simp: randomBigIntBelow_pos)
  from drawLoop_returns_accepted [OF this] assms(2) show False
    by (auto simp: kthDraw_def)
qed

lemma randomBigIntInRange_eq:
  "randomBigIntInRange mn mx r =
     map_option (\<lambda>(off, r'). (min mn mx + off, r')) (randomBigIntBelow (\<bar>mx - mn\<bar> + 1) r)"
  by (cases "randomBigIntBelow (\<bar>mx - mn\<bar> + 1) r")
     (auto simp: randomBigIntInRange_def Let_def min_def abs_if split: prod.splits)

lemma randomBigIntInRange_range:
  assumes "randomBigIntInRange mn mx r = Some (v, r')"
  shows "min mn mx \<le> v \<and> v \<le> max mn mx"
proof -
  from assms obtain off where off: "randomBigIntBelow (\<bar>mx - mn\<bar> + 1) r = Some (off, r')"
    "v = min mn mx + off"
    by (auto simp: randomBigIntInRange_eq)
  have "0 < \<bar>mx - mn\<bar> + 1" by simp
  from randomBigIntBelow_range [OF this off(1)] off(2) show ?thesis by auto
qed

lemma bitLength_values: "bitLength 2 = 2" "bitLength 3 = 2" "bitLength 10 = 4" "bitLength 1000 = 10"
  by (simp_all add: bitLength.simps)

lemmas draw_eval = kthDraw_def skipDraws_def drawValue_def getRandomValues_def byteLenOf_def
  maskOf_def bytesToBigInt_def bitLength_values upt_conv_Cons

lemma randomBigIntInRange_swap: "randomBigIntInRange mn mx r = randomBigIntInRange mx mn r"
  by (simp add: randomBigIntInRange_eq min.commute abs_minus_commute)

section \<open>Properties of the prime search\<close>

lemma smod_eq_0_iff_dvd:
  fixes n p :: int
  assumes "0 \<le> n" "0 < p"
  shows "(n smod p = 0) = (p dvd n)"
  using assms by (simp add: smod_nonneg_eq_mod dvd_eq_mod_eq_0)

lemma trialDivision_None:
  "trialDivision n ps = None \<Longrightarrow> \<forall>p\<in>set ps. n \<noteq> p \<and> n smod p \<noteq> 0"
  by (induction ps) (auto split: if_splits)

lemma trialDivision_True: "trialDivision n ps = Some True \<Longrightarrow> n \<in> set ps"
  by (induction ps) (auto split: if_splits)

lemma smallPrimes_pos: "p \<in> set smallPrimes \<Longrightarrow> 0 < p"
  by (auto simp: smallPrimes_def)

lemma isProbablePrime_True_cases:
  assumes "isProbablePrime n = Some True"
  shows "2 \<le> n \<and> (n \<in> set smallPrimes \<or> (\<forall>p\<in>set smallPrimes. \<not> p dvd n))"
proof -
  have n: "2 \<le> n" using assms by (auto simp: isProbablePrime_def split: if_splits)
  show ?thesis
  proof (cases "trialDivision n smallPrimes")
    case None
    have "\<not> p dvd n" if "p \<in> set smallPrimes" for p
    proof -
      have "n smod p \<noteq> 0" using trialDivision_None [OF None] that by blast
      moreover have "0 \<le> n" "0 < p" using n smallPrimes_pos [OF that] by simp_all
      ultimately show ?thesis using smod_eq_0_iff_dvd [of n p] by simp
    qed
    with n show ?thesis by blast
  next
    case (Some r)
    with assms n have "r" by (simp add: isProbablePrime_def)
    with Some have "trialDivision n smallPrimes = Some True" by simp
    from trialDivision_True [OF this] n show ?thesis by simp
  qed
qed

lemma small_divisor_cases:
  "\<forall>d\<in>{2..44::int}. d = 41 \<or> d = 43 \<or> (\<exists>p\<in>set smallPrimes. p dvd d)"
  by code_simp

lemma smallPrimes_prime: "\<forall>p\<in>set smallPrimes. isPrime p"
  by code_simp

lemma composite_41:
  "isProbablePrime 1681 = Some False" "isProbablePrime 1722 = Some False"
  "isProbablePrime 1763 = Some False" "isProbablePrime 1804 = Some False"
  "isProbablePrime 1845 = Some False" "isProbablePrime 1886 = Some False"
  "isProbablePrime 1927 = Some False" "isProbablePrime 1968 = Some False"
  by code_simp+

lemma composite_43:
  "isProbablePrime 1849 = Some False" "isProbablePrime 1892 = Some False"
  "isProbablePrime 1935 = Some False" "isProbablePrime 1978 = Some False"
  by code_simp+

lemma composite_factors:
  assumes "2 \<le> n" "\<not> isPrime n"
  obtains m M where "2 \<le> m" "m \<le> M" "n = m * M"
proof -
  from assms obtain d where d: "2 \<le> d" "d < n" "d dvd n"
    by (auto simp: isPrime_def)
  then obtain k where k: "n = d * k" by (auto elim: dvdE)
  have "2 \<le> k"
  proof (rule ccontr)
    assume "\<not> 2 \<le> k"
    then have "k \<le> 1" by simp
    then have "d * k \<le> d * 1" using d(1) by (intro mult_left_mono) simp_all
    with k d(2) show False by simp
  qed
  show ?thesis
  proof (cases "d \<le> k")
    case True
    with d k show ?thesis by (intro that [of d k])
  next
    case False
    with \<open>2 \<le> k\<close> k show ?thesis by (intro that [of k d]) (simp_all add: mult.commute)
  qed
qed

lemma isProbablePrime_sound_below_2000:
  assumes acc: "isProbablePrime n = Some True" and lt: "n < 2000"
  shows "isPrime n"
proof (rule ccontr)
  assume np: "\<not> isPrime n"
  from isProbablePrime_True_cases [OF acc]
  have n: "2 \<le> n" and cases: "n \<in> set smallPrimes \<or> (\<forall>p\<in>set smallPrimes. \<not> p dvd n)"
    by simp_all
  from cases np smallPrimes_prime have nodiv: "\<forall>p\<in>set smallPrimes. \<not> p dvd n" by blast
  from composite_factors [OF n np] obtain m M where mM: "2 \<le> m" "m \<le> M" "n = m * M" .
  have "m \<le> 44"
  proof (rule ccontr)
    assume "\<not> m \<le> 44"
    then have "45 \<le> m" "45 \<le> M" using mM(2) by simp_all
    then have "45 * 45 \<le> m * M" by (intro mult_mono) simp_all
    with mM(3) lt show False by simp
  qed
  with mM(1) have "m \<in> {2..44}" by simp
  from bspec [OF small_divisor_cases this]
  have "m = 41 \<or> m = 43 \<or> (\<exists>p\<in>set smallPrimes. p dvd m)" .
  then consider "m = 41" | "m = 43" | p where "p \<in> set smallPrimes" "p dvd m" by blast
  then show False
  proof cases
    case 1
    have "M \<le> 48"
    proof (rule ccontr)
      assume "\<not> M \<le> 48"
      then have "41 * 49 \<le> 41 * M" by simp
      with 1 mM(3) lt show False by simp
    qed
    with 1 mM(2) have "M = 41 \<or> M = 42 \<or> M = 43 \<or> M = 44 \<or> M = 45 \<or> M = 46 \<or>
        M = 47 \<or> M = 48" by arith
    then have "isProbablePrime (41 * M) = Some False"
      using composite_41 by (elim disjE) simp_all
    then show False using acc 1 mM(3) by simp
  next
    case 2
    have "M \<le> 46"
    proof (rule ccontr)
      assume "\<not> M \<le> 46"
      then have "43 * 47 \<le> 43 * M" by simp
      with 2 mM(3) lt show False by simp
    qed
    with 2 mM(2) have "M = 43 \<or> M = 44 \<or> M = 45 \<or> M = 46" by arith
    then have "isProbablePrime (43 * M) = Some False"
      using composite_43 by (elim disjE) simp_all
    then show False using acc 2 mM(3) by simp
  next
    case 3
    then have "p dvd n" using mM(3) by simp
    with 3(1) nodiv show False by blast
  qed
qed

lemma odd_iff_and_one: "(x AND 1 = 0) = even (x :: int)"
  by (simp add: and_one_eq mod_2_eq_odd)

lemma normalizeRange_props:
  assumes "normalizeRange mn mx = (lo, hi)"
  shows "5 \<le> lo \<and> lo \<le> hi \<and> odd lo \<and> odd hi"
proof -
  define maxP1 where "maxP1 = (if mx < 5 then 5 else mx)"
  define minP1 where "minP1 = (if mn < 5 then 5 else mn)"
  define minP2 where "minP2 = (if even minP1 then minP1 + 1 else minP1)"
  define maxP2 where "maxP2 = (if even maxP1 then maxP1 - 1 else maxP1)"
  have "5 \<le> maxP1" "5 \<le> minP1" by (simp_all add: maxP1_def minP1_def)
  then have b: "5 \<le> minP2" "5 \<le> maxP2" "odd minP2" "odd maxP2"
    unfolding minP2_def maxP2_def by presburger+
  have "(lo, hi) = (if minP2 > maxP2 then (maxP2, minP2) else (minP2, maxP2))"
    using assms
    unfolding normalizeRange_def Let_def odd_iff_and_one maxP1_def minP1_def minP2_def maxP2_def
    by (rule sym)
  with b show ?thesis by (auto split: if_splits)
qed

lemma randomScan_total: "\<exists>res. randomScan lo hi limit tries c = Some res"
proof (induction lo hi limit tries c rule: randomScan.induct)
  case (1 minP maxP limit tries candidate)
  obtain b where b: "isProbablePrime candidate = Some b"
    using isProbablePrime_total by blast
  show ?case
  proof (cases "tries < limit \<and> \<not> b")
    case True
    with 1 [of b] b show ?thesis by (subst randomScan.simps) simp
  next
    case False
    with b show ?thesis by (subst randomScan.simps) auto
  qed
qed

lemma randomScan_found:
  assumes "randomScan lo hi limit tries c = Some (Some v)"
    and "lo \<le> c" "c \<le> hi" "odd c" "odd lo"
  shows "isProbablePrime v = Some True \<and> lo \<le> v \<and> v \<le> hi \<and> odd v"
  using assms
proof (induction lo hi limit tries c rule: randomScan.induct)
  case (1 minP maxP limit tries candidate)
  obtain b where b: "isProbablePrime candidate = Some b"
    using isProbablePrime_total by blast
  have lt: "tries < limit"
    using "1.prems"(1) by (subst (asm) randomScan.simps) (simp split: if_splits)
  show ?case
  proof (cases b)
    case True
    with b lt "1.prems" show ?thesis
      by (subst (asm) randomScan.simps) simp
  next
    case False
    let ?c = "if candidate + 2 > maxP then minP else candidate + 2"
    have next_call: "randomScan minP maxP limit (tries + 1) ?c = Some (Some v)"
      using "1.prems"(1) b lt False by (subst (asm) randomScan.simps) simp
    have "minP \<le> ?c" "?c \<le> maxP" "odd ?c"
      using "1.prems"(2-) by auto
    from "1.IH" [OF lt b _ next_call this "1.prems"(5)] False show ?thesis by simp
  qed
qed

lemma fallbackScan_total: "\<exists>res. fallbackScan n hi = Some res"
proof (induction n hi rule: fallbackScan.induct)
  case (1 n maxP)
  obtain b where b: "isProbablePrime n = Some b"
    using isProbablePrime_total by blast
  show ?case
  proof (cases "n \<le> maxP \<and> \<not> b")
    case True
    with 1 [of b] b show ?thesis by (subst fallbackScan.simps) simp
  next
    case False
    with b show ?thesis by (subst fallbackScan.simps) auto
  qed
qed

lemma fallbackScan_found:
  assumes "fallbackScan n hi = Some (Some v)" "odd n"
  shows "isProbablePrime v = Some True \<and> n \<le> v \<and> v \<le> hi \<and> odd v"
  using assms
proof (induction n hi rule: fallbackScan.induct)
  case (1 n maxP)
  obtain b where b: "isProbablePrime n = Some b"
    using isProbablePrime_total by blast
  have le: "n \<le> maxP"
    using "1.prems"(1) by (subst (asm) fallbackScan.simps) (simp split: if_splits)
  show ?case
  proof (cases b)
    case True
    with b le "1.prems" show ?thesis
      by (subst (asm) fallbackScan.simps) simp
  next
    case False
    have "fallbackScan (n + 2) maxP = Some (Some v)"
      using "1.prems"(1) b le False by (subst (asm) fallbackScan.simps) simp
    from "1.IH" [OF le b _ this] False "1.prems"(2) show ?thesis by simp
  qed
qed

lemma fallbackScan_none:
  assumes "fallbackScan n hi = Some None" "n \<le> v" "v \<le> hi" "even (v - n)"
  shows "isProbablePrime v \<noteq> Some True"
  using assms
proof (induction n hi rule: fallbackScan.induct)
  case (1 n maxP)
  obtain b where b: "isProbablePrime n = Some b"
    using isProbablePrime_total by blast
  have le: "n \<le> maxP" using "1.prems" by simp
  have nb: "\<not> b"
    using "1.prems"(1) b le by (subst (asm) fallbackScan.simps) (simp split: if_splits)
  have rest: "fallbackScan (n + 2) maxP = Some None"
    using "1.prems"(1) b le nb by (subst (asm) fallbackScan.simps) simp
  show ?case
  proof (cases "v = n")
    case True
    with b nb show ?thesis by simp
  next
    case False
    with "1.prems"(2,4) have "n + 2 \<le> v" "even (v - (n + 2))"
      by presburger+
    from "1.IH" [OF le b _ rest this(1) "1.prems"(3) this(2)] nb show ?thesis by simp
  qed
qed

lemma randomPrimeInRange_eq:
  assumes "normalizeRange mn mx = (lo, hi)"
  shows "randomPrimeInRange mn mx r =
     (case randomBigIntInRange lo hi r of
        None \<Rightarrow> None
      | Some (c, r') \<Rightarrow>
          (case randomScan lo hi ((hi - lo) sdiv 2 + 2) 0 (if even c then c + 1 else c) of
             Some (Some p) \<Rightarrow> Some (p, r')
           | _ \<Rightarrow> (case fallbackScan lo hi of
                     Some (Some n) \<Rightarrow> Some (n, r')
                   | _ \<Rightarrow> Some (101, r'))))"
proof (cases "randomBigIntInRange lo hi r")
  case None
  then show ?thesis by (simp add: randomPrimeInRange_def assms)
next
  case (Some y)
  obtain c r' where y: "y = (c, r')" by (cases y)
  obtain res where res: "randomScan lo hi ((hi - lo) sdiv 2 + 2) 0 (if even c then c + 1 else c)
      = Some res" using randomScan_total by blast
  obtain res' where res': "fallbackScan lo hi = Some res'" using fallbackScan_total by blast
  show ?thesis
    using Some y res res'
    by (simp add: randomPrimeInRange_def assms Let_def odd_iff_and_one split: option.splits)
qed

lemma randomPrimeInRange_result:
  assumes nr: "normalizeRange mn mx = (lo, hi)"
    and ret: "randomPrimeInRange mn mx r = Some (v, r')"
  shows "(isProbablePrime v = Some True \<and> odd v \<and> lo \<le> v \<and> v \<le> hi) \<or>
         (v = 101 \<and> (\<forall>n. lo \<le> n \<and> n \<le> hi \<and> odd n \<longrightarrow> isProbablePrime n \<noteq> Some True))"
proof -
  from normalizeRange_props [OF nr] have props: "5 \<le> lo" "lo \<le> hi" "odd lo" "odd hi"
    by simp_all
  from ret obtain c where draw: "randomBigIntInRange lo hi r = Some (c, r')"
    by (auto simp: randomPrimeInRange_eq [OF nr] split: option.splits prod.splits)
  from randomBigIntInRange_range [OF draw] props(2) have c: "lo \<le> c" "c \<le> hi"
    by simp_all
  let ?c = "if even c then c + 1 else c"
  have c': "lo \<le> ?c" "?c \<le> hi" "odd ?c"
  proof -
    show "lo \<le> ?c" using c by simp
    show "odd ?c" by simp
    have "c \<noteq> hi" if "even c" using that props(4) by auto
    with c show "?c \<le> hi" by auto
  qed
  obtain res where res: "randomScan lo hi ((hi - lo) sdiv 2 + 2) 0 ?c = Some res"
    using randomScan_total by blast
  obtain res' where res': "fallbackScan lo hi = Some res'" using fallbackScan_total by blast
  show ?thesis
  proof (cases res)
    case (Some p)
    with ret draw res have "v = p" by (simp add: randomPrimeInRange_eq [OF nr])
    with randomScan_found [OF res [unfolded Some] c' props(3)] show ?thesis by simp
  next
    case None
    note scan_none = this
    show ?thesis
    proof (cases res')
      case (Some n)
      with ret draw res res' scan_none have "v = n" by (simp add: randomPrimeInRange_eq [OF nr])
      with fallbackScan_found [OF res' [unfolded Some] props(3)] show ?thesis by simp
    next
      case None
      with ret draw res res' scan_none have v: "v = 101"
        by (simp add: randomPrimeInRange_eq [OF nr])
      have "isProbablePrime n \<noteq> Some True" if "lo \<le> n" "n \<le> hi" "odd n" for n
        using fallbackScan_none [OF res' [unfolded None] that(1,2)] that(3) props(3) by simp
      with v show ?thesis by blast
    qed
  qed
qed

lemma randomPrimeInRange_None_iff:
  assumes nr: "normalizeRange mn mx = (lo, hi)"
  shows "(randomPrimeInRange mn mx r = None) = (randomBigIntInRange lo hi r = None)"
  by (auto simp: randomPrimeInRange_eq [OF nr] split: option.splits)

lemma normalizeRange_401_2000: "normalizeRange 401 2000 = (401, 1999)"
  by (simp add: normalizeRange_def and_one_eq)

lemma normalizeRange_25_27: "normalizeRange 25 27 = (25, 27)"
  by (simp add: normalizeRange_def and_one_eq)

lemma isProbablePrime_401: "isProbablePrime 401 = Some True"
  by code_simp

lemma isProbablePrime_25_27: "isProbablePrime 25 = Some False" "isProbablePrime 27 = Some False"
  by (simp_all add: isProbablePrime_def smallPrimes_def signed_modulo_int_def)

lemma bitLength_values2: "bitLength 1599 = 11"
  by (simp add: bitLength.simps)

lemma draw_zero_1599: "randomBigIntInRange 401 1999 (\<lambda>_. 0) = Some (401, \<lambda>_. 0)"
proof -
  have "kthDraw 1599 0 (\<lambda>_. 0) = 0"
    by (simp add: kthDraw_def skipDraws_def drawValue_def getRandomValues_def byteLenOf_def
        maskOf_def bytesToBigInt_def bitLength_values2 upt_conv_Cons)
  then have "randomBigIntBelow 1599 (\<lambda>_. 0) = Some (0, \<lambda>_. 0)"
    using randomBigIntBelow_first_accepted [of 1599 0 "\<lambda>_. 0"] by (simp add: skipDraws_def)
  then show ?thesis by (simp add: randomBigIntInRange_eq)
qed

lemma draw_zero_3: "randomBigIntInRange 25 27 (\<lambda>_. 0) = Some (25, \<lambda>_. 0)"
proof -
  have "kthDraw 3 0 (\<lambda>_. 0) = 0"
    by (simp add: draw_eval)
  then have "randomBigIntBelow 3 (\<lambda>_. 0) = Some (0, \<lambda>_. 0)"
    using randomBigIntBelow_first_accepted [of 3 0 "\<lambda>_. 0"] by (simp add: skipDraws_def)
  then show ?thesis by (simp add: randomBigIntInRange_eq)
qed

lemma randomPrimeInRange_401_zero:
  "randomPrimeInRange 401 2000 (\<lambda>_. 0) = Some (401, \<lambda>_. 0)"
  by (simp add: randomPrimeInRange_eq [OF normalizeRange_401_2000] draw_zero_1599
      randomScan.simps isProbablePrime_401 signed_divide_int_def)

subsection \<open>A failed validation\<close>

text \<open>
  When \<^verbatim>\<open>validateParams\<close> fails, \<^verbatim>\<open>nextStep\<close> returns the state it was called in with
  only the message replaced: the cursor, the stored quadruple and the derived values are
  unchanged. Validation fails when a field text is not a decimal number, when \<open>p < 3\<close>,
  when \<^verbatim>\<open>isProbablePrime\<close> rejects \<open>p\<close>, and when \<open>g\<close>, \<open>a\<close> or \<open>b\<close> is outside its
  range; with the text 15 for \<open>p\<close> it reports that \<open>p\<close> is not prime.
\<close>

lemma nextStep_failed_validation:
  "(validateParams False st = Some (False, st1) \<longrightarrow>
      nextStep st = Some (st\<lparr>msgBox := ''Perbaiki parameter terlebih dahulu.''\<rparr>)) \<and>
   ((\<exists>e. readInputs st = Inl e) \<or>
    (\<exists>P G Asec Bsec. readInputs st = Inr (P, G, Asec, Bsec) \<and>
       (P < 3 \<or> isProbablePrime P = Some False \<or> G < 2 \<or> P - 1 < G \<or>
        Asec < 2 \<or> P - 2 < Asec \<or> Bsec < 2 \<or> P - 2 < Bsec)) \<longrightarrow>
      validateParams False st = Some (False, st)) \<and>
   validateParams True (loaded ''15'' ''5'' ''6'' ''15'') =
     Some (False, (loaded ''15'' ''5'' ''6'' ''15'')\<lparr>msgBox := ''p tampaknya bukan prima.''\<rparr>) \<and>
   (\<exists>st'. nextStep (loaded ''15'' ''5'' ''6'' ''15'') = Some st' \<and> stepIdx st' = 0 \<and>
      st_A st' = None \<and> st_B st' = None \<and> ABox st' = None \<and> BBox st' = None)"
proof -
  have fail: "validateParams False st = Some (False, st)"
    if "readInputs st = Inr (P, G, Asec, Bsec)" "\<not> paramsOk P G Asec Bsec"
    for P G Asec Bsec
    using validateParams_reject_range [OF that, of False] by simp
  have 1: "validateParams False st = Some (False, st1) \<longrightarrow>
      nextStep st = Some (st\<lparr>msgBox := ''Perbaiki parameter terlebih dahulu.''\<rparr>)"
    using nextStep_reject by blast
  have 2: "validateParams False st = Some (False, st)" if "readInputs st = Inl e" for e
    using validateParams_reject_parse [OF that, of False] by simp
  have 3: "validateParams False st = Some (False, st)"
    if "readInputs st = Inr (P, G, Asec, Bsec)"
      "P < 3 \<or> isProbablePrime P = Some False \<or> G < 2 \<or> P - 1 < G \<or>
        Asec < 2 \<or> P - 2 < Asec \<or> Bsec < 2 \<or> P - 2 < Bsec" for P G Asec Bsec
    using that(2) by (intro fail [OF that(1)]) (auto simp: paramsOk_def)
  have no15: "\<not> paramsOk 15 5 6 15"
    by (simp add: paramsOk_def isProbablePrime_small)
  have 4: "validateParams True (loaded ''15'' ''5'' ''6'' ''15'') =
     Some (False, (loaded ''15'' ''5'' ''6'' ''15'')\<lparr>msgBox := ''p tampaknya bukan prima.''\<rparr>)"
    by (simp add: validateParams_def readInputs_loaded isProbablePrime_small reject_def
        setMessage_def)
  have "validateParams False (loaded ''15'' ''5'' ''6'' ''15'') =
          Some (False, loaded ''15'' ''5'' ''6'' ''15'')"
    using validateParams_reject_range [OF readInputs_loaded(2) no15, of False] by simp
  from nextStep_reject [OF this]
  have 5: "\<exists>st'. nextStep (loaded ''15'' ''5'' ''6'' ''15'') = Some st' \<and> stepIdx st' = 0 \<and>
      st_A st' = None \<and> st_B st' = None \<and> ABox st' = None \<and> BBox st' = None"
    by (simp add: loaded_def)
  from 1 2 3 4 5 show ?thesis by blast
qed

lemma nextStep_failed_validation_at_15:
  "validateParams False (loaded ''15'' ''5'' ''6'' ''15'') =
     Some (False, loaded ''15'' ''5'' ''6'' ''15'') \<and>
   readInputs (loaded ''15'' ''5'' ''6'' ''15'') = Inr (15, 5, 6, 15) \<and>
   isProbablePrime 15 = Some False \<and>
   nextStep (loaded ''15'' ''5'' ''6'' ''15'') =
     Some ((loaded ''15'' ''5'' ''6'' ''15'')\<lparr>msgBox := ''Perbaiki parameter terlebih dahulu.''\<rparr>)"
  using nextStep_failed_validation
    [of "loaded ''15'' ''5'' ''6'' ''15''" "loaded ''15'' ''5'' ''6'' ''15''"]
    readInputs_loaded(2) isProbablePrime_small(2)
  by auto

lemma readInputs_psp:
  "readInputs (loaded ''341550071728321'' ''2'' ''2'' ''2'') = Inr (341550071728321, 2, 2, 2)"
  by (simp add: readInputs_def loaded_def parse_eval)

lemma paramsOk_psp: "paramsOk 341550071728321 2 2 2"
  by (simp add: paramsOk_def psp_accepted)

section \<open>Primes and the multiplicative order\<close>

subsection \<open>Divisibility by a prime and Fermat's little theorem\<close>

lemma isPrime_divisors:
  assumes "isPrime p" "0 \<le> d" "d dvd p"
  shows "d = 1 \<or> d = p"
proof -
  have p: "2 \<le> p" using assms(1) by (simp add: isPrime_def)
  have "d \<le> p" using assms(3) p by (intro zdvd_imp_le) simp_all
  moreover have "d \<noteq> 0" using assms(3) p by auto
  ultimately have "d = 1 \<or> d = p \<or> d \<in> {2..<p}" using assms(2) by auto
  then show ?thesis using assms(1,3) by (auto simp: isPrime_def)
qed

lemma isPrime_coprime:
  assumes "isPrime p" "\<not> p dvd a"
  shows "coprime p a"
proof -
  have "gcd p a dvd p" "0 \<le> gcd p a" by simp_all
  from isPrime_divisors [OF assms(1) this(2,1)] have "gcd p a = 1 \<or> gcd p a = p" .
  moreover have "gcd p a \<noteq> p"
  proof
    assume "gcd p a = p"
    then have "p dvd a" by (metis gcd_dvd2)
    with assms(2) show False by simp
  qed
  ultimately show ?thesis by (simp add: coprime_iff_gcd_eq_1)
qed

lemma isPrime_dvd_mult:
  assumes "isPrime p" "p dvd a * b"
  shows "p dvd a \<or> p dvd b"
proof (cases "p dvd a")
  case False
  from isPrime_coprime [OF assms(1) False] assms(2) show ?thesis
    by (simp add: coprime_dvd_mult_right_iff)
qed simp

lemma isPrime_dvd_power:
  assumes "isPrime p" "p dvd a ^ n"
  shows "p dvd a"
  using assms(2)
proof (induction n)
  case 0
  then have "p dvd 1" by simp
  then show ?case using assms(1) by (simp add: isPrime_def)
next
  case (Suc n)
  then have "p dvd a * a ^ n" by simp
  from isPrime_dvd_mult [OF assms(1) this] Suc.IH show ?case by blast
qed

lemma isPrime_dvd_prod:
  assumes "isPrime p" "finite S" "p dvd prod f S"
  shows "\<exists>x\<in>S. p dvd f x"
  using assms(2,3)
proof (induction S)
  case empty
  then have "p dvd 1" by simp
  then show ?case using assms(1) by (simp add: isPrime_def)
next
  case (insert x S)
  then have "p dvd f x * prod f S" by simp
  from isPrime_dvd_mult [OF assms(1) this] insert show ?case by auto
qed

lemma not_dvd_small:
  fixes p x :: int
  assumes "0 < x" "x < p"
  shows "\<not> p dvd x"
  using assms by (auto dest: zdvd_imp_le)

lemma fermat_little:
  assumes p: "isPrime p" and a: "\<not> p dvd a"
  shows "a ^ nat (p - 1) mod p = 1"
proof -
  have p2: "2 \<le> p" using p by (simp add: isPrime_def)
  let ?S = "{1..<p}"
  let ?f = "\<lambda>x. (a * x) mod p"
  have fin: "finite ?S" by simp
  have nd: "\<not> p dvd x" if "x \<in> ?S" for x
    using that by (intro not_dvd_small) simp_all
  have into: "?f x \<in> ?S" if "x \<in> ?S" for x
  proof -
    have "\<not> p dvd a * x" using isPrime_dvd_mult [OF p] a nd [OF that] by blast
    then have "?f x \<noteq> 0" by (simp add: dvd_eq_mod_eq_0)
    moreover have "0 \<le> ?f x" "?f x < p" using p2 by simp_all
    ultimately show ?thesis by simp
  qed
  have inj: "inj_on ?f ?S"
  proof (rule inj_onI)
    fix x y assume x: "x \<in> ?S" and y: "y \<in> ?S" and eq: "?f x = ?f y"
    then have "p dvd a * x - a * y" by (simp add: mod_eq_dvd_iff)
    then have "p dvd a * (x - y)" by (simp add: right_diff_distrib)
    with isPrime_dvd_mult [OF p] a have d: "p dvd x - y" by blast
    have "\<bar>x - y\<bar> < p" using x y by auto
    with d have "x - y = 0" by (meson dvd_abs_iff zdvd_not_zless abs_ge_zero zero_less_abs_iff not_less order.order_iff_strict)
    then show "x = y" by simp
  qed
  have img: "?f ` ?S = ?S"
    using into by (intro card_subset_eq fin) (auto simp: card_image [OF inj])
  have "prod ?f ?S = prod (\<lambda>x. x) (?f ` ?S)"
    by (simp add: prod.reindex [OF inj])
  then have eq: "prod ?f ?S = prod (\<lambda>x. x) ?S" by (simp add: img)
  have "prod (\<lambda>x. a * x) ?S mod p = prod ?f ?S mod p"
    by (rule mod_prod_eq [symmetric])
  also have "\<dots> = prod (\<lambda>x. x) ?S mod p" by (simp add: eq)
  finally have "(a ^ card ?S * prod (\<lambda>x. x) ?S) mod p = prod (\<lambda>x. x) ?S mod p"
    by (simp add: prod.distrib)
  then have "p dvd a ^ card ?S * prod (\<lambda>x. x) ?S - prod (\<lambda>x. x) ?S"
    by (simp add: mod_eq_dvd_iff)
  then have "p dvd (a ^ card ?S - 1) * prod (\<lambda>x. x) ?S"
    by (simp add: left_diff_distrib)
  from isPrime_dvd_mult [OF p this] have "p dvd a ^ card ?S - 1"
    using isPrime_dvd_prod [OF p fin, of "\<lambda>x. x"] nd by blast
  moreover have "card ?S = nat (p - 1)" by simp
  ultimately have "p dvd a ^ nat (p - 1) - 1" by simp
  then have "a ^ nat (p - 1) mod p = 1 mod p" by (simp add: mod_eq_dvd_iff)
  then show ?thesis using p2 by simp
qed

subsection \<open>The order of a residue\<close>

lemma ord_props:
  assumes "isPrime p" "\<not> p dvd a"
  shows "0 < ord p a \<and> a ^ ord p a mod p = 1"
proof -
  have "2 \<le> p" using assms(1) by (simp add: isPrime_def)
  then have "0 < nat (p - 1) \<and> a ^ nat (p - 1) mod p = 1"
    using fermat_little [OF assms] by simp
  then show ?thesis unfolding ord_def by (rule LeastI)
qed

lemma ord_le:
  assumes "0 < k" "a ^ k mod p = 1"
  shows "ord p a \<le> k"
  unfolding ord_def using assms by (intro Least_le) simp

lemma pow_mod_1_mult:
  fixes a p :: int
  assumes "1 < p" "a ^ n mod p = 1"
  shows "a ^ (n * m) mod p = 1"
proof -
  have "a ^ (n * m) mod p = (a ^ n mod p) ^ m mod p"
    by (simp add: power_mult power_mod)
  then show ?thesis using assms by simp
qed

lemma pow_eq_1_iff:
  assumes p: "isPrime p" and a: "\<not> p dvd a"
  shows "(a ^ k mod p = 1) = (ord p a dvd k)"
proof
  have p1: "1 < p" using p by (simp add: isPrime_def)
  note op = ord_props [OF p a]
  {
    assume "ord p a dvd k"
    then obtain m where "k = ord p a * m" ..
    then show "a ^ k mod p = 1" using pow_mod_1_mult [OF p1 op [THEN conjunct2]] by simp
  }
  {
    assume k: "a ^ k mod p = 1"
    let ?n = "ord p a"
    let ?r = "k mod ?n"
    have "k = ?n * (k div ?n) + ?r" by simp
    then have "a ^ k = a ^ (?n * (k div ?n)) * a ^ ?r"
      by (metis power_add)
    then have "a ^ k mod p = ((a ^ (?n * (k div ?n)) mod p) * (a ^ ?r mod p)) mod p"
      by (simp add: mod_mult_eq)
    then have "a ^ k mod p = a ^ ?r mod p"
      using pow_mod_1_mult [OF p1 op [THEN conjunct2], of "k div ?n"] by simp
    with k have r1: "a ^ ?r mod p = 1" by simp
    have "?r = 0"
    proof (rule ccontr)
      assume "?r \<noteq> 0"
      then have "0 < ?r" by simp
      from ord_le [OF this r1] have "?n \<le> ?r" .
      moreover have "?r < ?n" using op by simp
      ultimately show False by simp
    qed
    then show "?n dvd k" by (simp add: dvd_eq_mod_eq_0)
  }
qed

lemma ord_dvd_p1:
  assumes "isPrime p" "\<not> p dvd a"
  shows "ord p a dvd nat (p - 1)"
  using fermat_little [OF assms] by (simp add: pow_eq_1_iff [OF assms])

lemma ord_unique:
  assumes p: "isPrime p" and a: "\<not> p dvd a"
    and d: "\<And>k. (a ^ k mod p = 1) = (d dvd k)"
  shows "ord p a = d"
proof -
  have "ord p a dvd d" using d [of d] by (simp add: pow_eq_1_iff [OF p a])
  moreover have "d dvd ord p a" using ord_props [OF p a] by (simp add: d)
  ultimately show ?thesis by (rule dvd_antisym)
qed

lemma ord_power:
  assumes p: "isPrime p" and a: "\<not> p dvd a" and m: "m dvd ord p a"
  shows "ord p (a ^ m) = ord p a div m"
proof (rule ord_unique [OF p])
  show "\<not> p dvd a ^ m" using isPrime_dvd_power [OF p] a by blast
  have mpos: "0 < m" using m ord_props [OF p a] by (auto intro: Nat.gr0I)
  obtain t where t: "ord p a = m * t" using m ..
  then have dv: "ord p a div m = t" using mpos by simp
  fix k
  have "((a ^ m) ^ k mod p = 1) = (ord p a dvd m * k)"
    by (simp add: pow_eq_1_iff [OF p a] flip: power_mult)
  also have "\<dots> = (t dvd k)" using mpos by (simp add: t)
  finally show "((a ^ m) ^ k mod p = 1) = (ord p a div m dvd k)" by (simp add: dv)
qed

lemma ord_mult_coprime:
  assumes p: "isPrime p" and a: "\<not> p dvd a" and b: "\<not> p dvd b"
    and cop: "coprime (ord p a) (ord p b)"
  shows "ord p (a * b) = ord p a * ord p b"
proof (rule ord_unique [OF p])
  show ab: "\<not> p dvd a * b" using isPrime_dvd_mult [OF p] a b by blast
  have p1: "1 < p" using p by (simp add: isPrime_def)
  let ?m = "ord p a" and ?n = "ord p b"
  fix k
  show "((a * b) ^ k mod p = 1) = (?m * ?n dvd k)"
  proof
    assume "?m * ?n dvd k"
    then have "?m dvd k" "?n dvd k" by (auto dest: dvd_mult_left dvd_mult_right)
    then have "a ^ k mod p = 1" "b ^ k mod p = 1"
      by (simp_all add: pow_eq_1_iff [OF p a] pow_eq_1_iff [OF p b])
    then have "((a ^ k mod p) * (b ^ k mod p)) mod p = 1" using p1 by simp
    then show "(a * b) ^ k mod p = 1" by (simp add: power_mult_distrib mod_mult_eq)
  next
    assume k: "(a * b) ^ k mod p = 1"
    have half: "ord p x dvd k"
      if x: "\<not> p dvd x" and y: "\<not> p dvd y" and xy: "(x * y) ^ k mod p = 1"
        and c: "coprime (ord p x) (ord p y)" for x y
    proof -
      have "(x * y) ^ (k * ord p y) mod p = 1"
        using pow_mod_1_mult [OF p1 xy] .
      moreover have "y ^ (k * ord p y) mod p = 1"
        by (simp add: pow_eq_1_iff [OF p y])
      moreover have "(x * y) ^ (k * ord p y) mod p
          = ((x ^ (k * ord p y) mod p) * (y ^ (k * ord p y) mod p)) mod p"
        by (simp add: power_mult_distrib mod_mult_eq)
      ultimately have "x ^ (k * ord p y) mod p = 1" using p1 by simp
      then have "ord p x dvd k * ord p y" by (simp add: pow_eq_1_iff [OF p x])
      with c show ?thesis by (simp add: coprime_dvd_mult_left_iff)
    qed
    have "?m dvd k" using half [OF a b k cop] .
    moreover have "?n dvd k"
      using half [OF b a _ coprime_commute [THEN iffD1, OF cop]] k by (simp add: mult.commute)
    ultimately show "?m * ?n dvd k" using cop by (simp add: divides_mult)
  qed
qed

lemma ord_mod: "ord p (a mod p) = ord p a"
  by (simp add: ord_def power_mod)

subsection \<open>Roots of a polynomial modulo a prime\<close>

lemma pquot_identity: "peval cs x = (x - r) * peval (pquot r cs) x + peval cs r"
proof (induction cs)
  case Nil
  show ?case by simp
next
  case (Cons c cs)
  show ?case
  proof (cases "cs = []")
    case True
    then show ?thesis by simp
  next
    case False
    have "peval (c # cs) x = c + x * ((x - r) * peval (pquot r cs) x + peval cs r)"
      using Cons.IH by simp
    also have "\<dots> = (x - r) * (peval cs r + x * peval (pquot r cs) x) + (c + r * peval cs r)"
      by (simp add: algebra_simps)
    finally show ?thesis using False by simp
  qed
qed

lemma pquot_length: "length (pquot r cs) = length cs - 1"
  by (induction cs) auto

lemma pquot_last: "2 \<le> length cs \<Longrightarrow> last (pquot r cs) = last cs"
proof (induction cs)
  case Nil
  then show ?case by simp
next
  case (Cons c cs)
  then have ne: "cs \<noteq> []" by auto
  show ?case
  proof (cases "length cs = 1")
    case True
    then obtain d where "cs = [d]" by (cases cs) auto
    then show ?thesis by simp
  next
    case False
    with ne have l2: "2 \<le> length cs"
      by (cases cs) (auto simp: Suc_le_eq)
    then have "pquot r cs \<noteq> []" using pquot_length [of r cs] by auto
    then show ?thesis using Cons.IH [OF l2] ne by simp
  qed
qed

lemma roots_bound:
  assumes p: "isPrime p"
  shows "cs \<noteq> [] \<Longrightarrow> \<not> p dvd last cs \<Longrightarrow>
           card {x \<in> {0..<p}. p dvd peval cs x} \<le> length cs - 1"
proof (induction "length cs" arbitrary: cs)
  case 0
  then show ?case by simp
next
  case (Suc n)
  let ?R = "{x \<in> {0..<p}. p dvd peval cs x}"
  show ?case
  proof (cases "?R = {}")
    case True
    then have "card ?R = 0" by (simp only: card.empty)
    then show ?thesis by simp
  next
    case False
    then obtain r where r: "0 \<le> r" "r < p" "p dvd peval cs r" by auto
    show ?thesis
    proof (cases "n = 0")
      case True
      with Suc.hyps(2) obtain c where cs: "cs = [c]" by (cases cs) auto
      with Suc.prems(2) r(3) show ?thesis by simp
    next
      case n: False
      let ?q = "pquot r cs"
      have len: "length ?q = n" using Suc.hyps(2) by (simp add: pquot_length)
      have l2: "2 \<le> length cs" using n Suc.hyps(2) by simp
      have "?q \<noteq> []" using len n by auto
      moreover have "\<not> p dvd last ?q" using Suc.prems(2) by (simp add: pquot_last [OF l2])
      ultimately have IH: "card {x \<in> {0..<p}. p dvd peval ?q x} \<le> n - 1"
        using Suc.hyps(1) [of ?q] len by simp
      have sub: "?R \<subseteq> insert r {x \<in> {0..<p}. p dvd peval ?q x}"
      proof
        fix x assume "x \<in> ?R"
        then have x: "0 \<le> x" "x < p" "p dvd peval cs x" by auto
        have "peval cs x - peval cs r = (x - r) * peval ?q x"
          using pquot_identity [of cs x r] by simp
        moreover have "p dvd peval cs x - peval cs r" using x(3) r(3) by (rule dvd_diff)
        ultimately have "p dvd (x - r) * peval ?q x" by simp
        from isPrime_dvd_mult [OF p this] show "x \<in> insert r {x \<in> {0..<p}. p dvd peval ?q x}"
        proof
          assume d: "p dvd x - r"
          have "\<bar>x - r\<bar> < p" using x r by auto
          with d have "x - r = 0" using zdvd_not_zless [of "\<bar>x - r\<bar>" p] by auto
          then show ?thesis by simp
        next
          assume "p dvd peval ?q x"
          with x show ?thesis by simp
        qed
      qed
      have "finite {x \<in> {0..<p}. p dvd peval ?q x}"
        by (rule finite_subset [of _ "{0..<p}"]) auto
      then have fin: "finite (insert r {x \<in> {0..<p}. p dvd peval ?q x})" by simp
      have "card ?R \<le> card (insert r {x \<in> {0..<p}. p dvd peval ?q x})"
        using sub fin by (rule card_mono [rotated])
      also have "\<dots> \<le> Suc (card {x \<in> {0..<p}. p dvd peval ?q x})"
        by (rule card_insert_le_m1) simp_all
      also have "\<dots> \<le> Suc (n - 1)" using IH by simp
      also have "\<dots> = length cs - 1" using n Suc.hyps(2) by simp
      finally show ?thesis .
    qed
  qed
qed

lemma peval_replicate: "peval (replicate k 0 @ cs) x = x ^ k * peval cs x"
  by (induction k) (simp_all add: algebra_simps)

lemma power_roots_bound:
  assumes p: "isPrime p" and N: "0 < N"
  shows "card {x \<in> {0..<p}. x ^ N mod p = 1} \<le> N"
proof -
  have p1: "1 < p" using p by (simp add: isPrime_def)
  let ?cs = "(- 1) # replicate (N - 1) 0 @ [1]"
  have ev: "peval ?cs x = x ^ N - 1" for x
  proof -
    have "peval ?cs x = - 1 + x * x ^ (N - 1)" by (simp add: peval_replicate)
    also have "x * x ^ (N - 1) = x ^ N" using N by (cases N) simp_all
    finally show ?thesis by simp
  qed
  have "\<not> p dvd last ?cs" using p1 by simp
  from roots_bound [OF p _ this] have "card {x \<in> {0..<p}. p dvd peval ?cs x} \<le> N"
    using N by simp
  moreover have "(p dvd peval ?cs x) = (x ^ N mod p = 1)" for x
  proof -
    have "(x ^ N mod p = 1) = (x ^ N mod p = 1 mod p)" using p1 by simp
    also have "\<dots> = (p dvd x ^ N - 1)" by (simp add: mod_eq_dvd_iff)
    finally show ?thesis unfolding ev by simp
  qed
  ultimately show ?thesis by (simp only:)
qed

subsection \<open>Existence of a primitive root\<close>

lemma prime_divisor_exists:
  fixes n :: nat
  assumes "1 < n"
  shows "\<exists>q. isPrime (int q) \<and> q dvd n"
  using assms
proof (induction n rule: less_induct)
  case (less n)
  show ?case
  proof (cases "isPrime (int n)")
    case True
    then show ?thesis by (intro exI [of _ n]) simp
  next
    case False
    with less.prems obtain d where d: "2 \<le> d" "d < int n" "d dvd int n"
      by (auto simp: isPrime_def)
    define e where "e = nat d"
    have e: "1 < e" "e < n" "e dvd n"
      using d by (auto simp: e_def nat_dvd_iff)
    from less.IH [OF e(2,1)] obtain q where "isPrime (int q)" "q dvd e" by blast
    with e(3) show ?thesis by (meson dvd_trans)
  qed
qed

lemma max_power_exists:
  fixes q N :: nat
  assumes q: "2 \<le> q" and N: "0 < N"
  shows "\<exists>a. q ^ a dvd N \<and> \<not> q ^ Suc a dvd N"
  using N
proof (induction N rule: less_induct)
  case (less N)
  show ?case
  proof (cases "q dvd N")
    case False
    then show ?thesis by (intro exI [of _ 0]) simp
  next
    case True
    then obtain M where M: "N = q * M" ..
    with less.prems q have "0 < M" "M < N" by auto
    from less.IH [OF this(2,1)] obtain a where a: "q ^ a dvd M" "\<not> q ^ Suc a dvd M" by blast
    have "q ^ Suc a dvd N" using a(1) M by simp
    moreover have "\<not> q ^ Suc (Suc a) dvd N" using a(2) M q by simp
    ultimately show ?thesis by blast
  qed
qed

lemma isPrime_nat_coprime:
  assumes "isPrime (int q)" "\<not> q dvd (m :: nat)"
  shows "coprime q m"
proof -
  have "\<not> int q dvd int m" using assms(2) by simp
  from isPrime_coprime [OF assms(1) this] show ?thesis by simp
qed

lemma excess_prime_power:
  fixes n N :: nat
  assumes "0 < N" "0 < n" "\<not> n dvd N"
  shows "\<exists>q a. isPrime (int q) \<and> q ^ a dvd N \<and> \<not> q ^ Suc a dvd N \<and> q ^ Suc a dvd n"
proof -
  define g where "g = gcd N n"
  have gpos: "0 < g" using assms(1) by (simp add: g_def)
  have "g dvd N" "g dvd n" by (simp_all add: g_def)
  then obtain N' n' where N': "N = g * N'" and n': "n = g * n'" by (auto elim!: dvdE)
  have cop: "coprime N' n'"
  proof -
    have "gcd N n = g" by (simp add: g_def)
    then have "gcd (g * N') (g * n') = g" unfolding N' [symmetric] n' [symmetric] .
    moreover have "g * gcd N' n' = gcd (g * N') (g * n')" by (rule gcd_mult_distrib_nat)
    ultimately have "g * gcd N' n' = g * 1" by (simp only: mult_1_right)
    then have "gcd N' n' = 1" using gpos by (simp only: mult_left_cancel [OF less_imp_neq [THEN not_sym]])
    then show ?thesis by (simp add: coprime_iff_gcd_eq_1)
  qed
  have "n' \<noteq> 1" using assms(3) N' n' by auto
  moreover have "n' \<noteq> 0" using assms(2) n' by auto
  ultimately have "1 < n'" by simp
  from prime_divisor_exists [OF this] obtain q where q: "isPrime (int q)" "q dvd n'" by blast
  have q2: "2 \<le> q" using q(1) by (simp add: isPrime_def)
  have qN': "\<not> q dvd N'"
  proof
    assume "q dvd N'"
    with q(2) cop have "is_unit q" by (meson coprime_common_divisor coprime_commute)
    with q2 show False by simp
  qed
  from max_power_exists [OF q2 assms(1)] obtain a where a: "q ^ a dvd N" "\<not> q ^ Suc a dvd N"
    by blast
  have "coprime (q ^ a) N'" using isPrime_nat_coprime [OF q(1) qN'] by simp
  with a(1) have "q ^ a dvd g" unfolding N' by (simp add: coprime_dvd_mult_left_iff)
  then have "q ^ a * q dvd g * n'" using q(2) by (rule mult_dvd_mono)
  then have "q ^ Suc a dvd n" by (simp add: n' mult.commute)
  with q(1) a show ?thesis by blast
qed

lemma residue_unit:
  fixes p x :: int
  assumes "x \<in> {1..<p}"
  shows "\<not> p dvd x"
  using assms by (intro not_dvd_small) simp_all

lemma mod_in_units:
  assumes "isPrime p" "\<not> p dvd y"
  shows "y mod p \<in> {1..<p}"
proof -
  have p: "0 < p" using assms(1) by (simp add: isPrime_def)
  have "y mod p \<noteq> 0" using assms(2) by (simp add: dvd_eq_mod_eq_0)
  moreover have "0 \<le> y mod p" "y mod p < p" using p by simp_all
  ultimately show ?thesis by simp
qed

theorem primitive_root_exists:
  assumes p: "isPrime p"
  shows "\<exists>g\<in>{1..<p}. ord p g = nat (p - 1)"
proof -
  have p2: "2 \<le> p" using p by (simp add: isPrime_def)
  let ?U = "{1..<p}"
  let ?O = "ord p ` ?U"
  have fin: "finite ?O" by simp
  have ne: "?O \<noteq> {}" using p2 by auto
  define N where "N = Max ?O"
  have "N \<in> ?O" unfolding N_def using fin ne by (rule Max_in)
  then obtain g where g: "g \<in> ?U" "ord p g = N" by auto
  have gu: "\<not> p dvd g" using residue_unit [OF g(1)] .
  have Npos: "0 < N" using ord_props [OF p gu] g(2) by simp
  have maxN: "ord p x \<le> N" if "x \<in> ?U" for x
    unfolding N_def using that fin by (intro Max_ge) auto
  have all_dvd: "ord p x dvd N" if x: "x \<in> ?U" for x
  proof (rule ccontr)
    assume nd: "\<not> ord p x dvd N"
    have xu: "\<not> p dvd x" using residue_unit [OF x] .
    have npos: "0 < ord p x" using ord_props [OF p xu] by simp
    from excess_prime_power [OF Npos npos nd] obtain q a where
      q: "isPrime (int q)" "q ^ a dvd N" "\<not> q ^ Suc a dvd N" "q ^ Suc a dvd ord p x" by blast
    have q2: "2 \<le> q" using q(1) by (simp add: isPrime_def)
    define y where "y = g ^ (q ^ a)"
    define z where "z = x ^ (ord p x div q ^ Suc a)"
    have yu: "\<not> p dvd y" unfolding y_def using isPrime_dvd_power [OF p] gu by blast
    have zu: "\<not> p dvd z" unfolding z_def using isPrime_dvd_power [OF p] xu by blast
    have oy: "ord p y = N div q ^ a"
      unfolding y_def using ord_power [OF p gu, of "q ^ a"] q(2) g(2) by simp
    have "q ^ Suc a * (ord p x div q ^ Suc a) = ord p x"
      using q(4) by (rule dvd_mult_div_cancel)
    then have "ord p x div q ^ Suc a dvd ord p x" by (metis dvd_triv_right)
    from ord_power [OF p xu this] have "ord p z = ord p x div (ord p x div q ^ Suc a)"
      unfolding z_def .
    also have "\<dots> = q ^ Suc a"
    proof -
      obtain t where t: "ord p x = q ^ Suc a * t" using q(4) ..
      with npos have "0 < t" by (intro Nat.gr0I) auto
      then show ?thesis using q2 by (simp add: t)
    qed
    finally have oz: "ord p z = q ^ Suc a" .
    have "\<not> q dvd N div q ^ a"
    proof
      assume "q dvd N div q ^ a"
      then have "q ^ a * q dvd q ^ a * (N div q ^ a)" by (rule mult_dvd_mono [OF dvd_refl])
      then have "q ^ Suc a dvd N" using q(2) by (simp add: mult.commute)
      with q(3) show False by simp
    qed
    from isPrime_nat_coprime [OF q(1) this] have "coprime (N div q ^ a) (q ^ Suc a)"
      by (simp add: coprime_commute)
    then have "coprime (ord p y) (ord p z)" by (simp add: oy oz)
    from ord_mult_coprime [OF p yu zu this] have "ord p (y * z) = (N div q ^ a) * q ^ Suc a"
      by (simp add: oy oz)
    also have "\<dots> = N * q" using q(2) by (auto elim!: dvdE)
    finally have big: "ord p (y * z) = N * q" .
    have "\<not> p dvd y * z" using isPrime_dvd_mult [OF p] yu zu by blast
    from mod_in_units [OF p this] have "ord p ((y * z) mod p) \<le> N" by (rule maxN)
    then have "N * q \<le> N" by (simp add: ord_mod big)
    with Npos q2 show False by simp
  qed
  have one: "x ^ N mod p = 1" if "x \<in> ?U" for x
    using all_dvd [OF that] by (simp add: pow_eq_1_iff [OF p residue_unit [OF that]])
  have "?U \<subseteq> {x \<in> {0..<p}. x ^ N mod p = 1}" using one by auto
  moreover have "finite {x \<in> {0..<p}. x ^ N mod p = 1}"
    by (rule finite_subset [of _ "{0..<p}"]) auto
  ultimately have "card ?U \<le> card {x \<in> {0..<p}. x ^ N mod p = 1}" by (rule card_mono [rotated])
  also have "\<dots> \<le> N" by (rule power_roots_bound [OF p Npos])
  finally have "nat (p - 1) \<le> N" by simp
  moreover have "N dvd nat (p - 1)" using ord_dvd_p1 [OF p gu] g(2) by simp
  then have "N \<le> nat (p - 1)" using p2 by (intro dvd_imp_le) simp_all
  ultimately have "N = nat (p - 1)" by simp
  with g show ?thesis by blast
qed

section \<open>Properties of the generator search\<close>

subsection \<open>primeFactorsDistinct\<close>

lemma sdiv_nonneg_eq_div:
  fixes x m :: int
  assumes "0 \<le> x" "0 < m"
  shows "x sdiv m = x div m"
  using assms by (simp add: signed_divide_int_def sgn_if)

lemma primeFactorsOf_one: "primeFactorsOf 1 = {}"
  by (auto simp add: primeFactorsOf_def isPrime_def)

lemma primeFactorsOf_mult_prime:
  assumes f: "isPrime f"
  shows "primeFactorsOf (f * y) = insert f (primeFactorsOf y)"
proof (intro set_eqI iffI)
  fix q
  assume "q \<in> primeFactorsOf (f * y)"
  then have q: "isPrime q" "q dvd f * y" by (simp_all add: primeFactorsOf_def)
  from isPrime_dvd_mult [OF q] show "q \<in> insert f (primeFactorsOf y)"
  proof
    assume "q dvd f"
    moreover have "0 \<le> q" "q \<noteq> 1" using q(1) by (simp_all add: isPrime_def)
    ultimately have "q = f" using isPrime_divisors [OF f, of q] by blast
    then show ?thesis by simp
  next
    assume "q dvd y"
    then show ?thesis using q(1) by (simp add: primeFactorsOf_def)
  qed
next
  fix q
  assume "q \<in> insert f (primeFactorsOf y)"
  then show "q \<in> primeFactorsOf (f * y)"
    using f by (auto simp add: primeFactorsOf_def)
qed

lemma pushDistinct_set: "set (pushDistinct q out) = insert q (set out)"
  by (auto simp add: pushDistinct_def)

lemma pushDistinct_distinct: "distinct out \<Longrightarrow> distinct (pushDistinct q out)"
  by (simp add: pushDistinct_def)

lemma divideOutTwos_total:
  assumes "0 < x"
  shows "\<exists>x' out'. divideOutTwos x out = Some (x', out') \<and> 0 < x' \<and> odd x' \<and>
           set out' = set out \<union> (if even x then {2} else {}) \<and>
           primeFactorsOf x = (if even x then {2} else {}) \<union> primeFactorsOf x' \<and>
           (distinct out \<longrightarrow> distinct out')"
  using assms
proof (induction "nat x" arbitrary: x out rule: less_induct)
  case less
  have sm: "(x smod 2 = 0) = even x"
    using less.prems by (simp add: smod_eq_0_iff_dvd)
  show ?case
  proof (cases "even x")
    case False
    then show ?thesis
      using less.prems sm by (subst divideOutTwos.simps) simp
  next
    case True
    then obtain y where y: "x = 2 * y" by (elim evenE)
    have y0: "0 < y" using less.prems y by simp
    have sd: "x sdiv 2 = y" using less.prems y by (simp add: sdiv_nonneg_eq_div)
    have "nat y < nat x" using y y0 by simp
    from less.hyps [OF this y0, of "pushDistinct 2 out"]
    obtain x' out' where r: "divideOutTwos y (pushDistinct 2 out) = Some (x', out')"
      "0 < x'" "odd x'" "set out' = set (pushDistinct 2 out) \<union> (if even y then {2} else {})"
      "primeFactorsOf y = (if even y then {2} else {}) \<union> primeFactorsOf x'"
      "distinct (pushDistinct 2 out) \<longrightarrow> distinct out'"
      by blast
    have "divideOutTwos x out = Some (x', out')"
      using True sm sd r(1) by (subst divideOutTwos.simps) simp
    moreover have "set out' = set out \<union> {2}"
      using r(4) by (auto simp add: pushDistinct_set)
    moreover have "primeFactorsOf x = {2} \<union> primeFactorsOf x'"
      unfolding y primeFactorsOf_mult_prime [OF isPrime_2] using r(5) by auto
    moreover have "distinct out \<longrightarrow> distinct out'"
      using r(6) by (simp add: pushDistinct_distinct)
    ultimately show ?thesis using True r(2,3) by simp
  qed
qed

lemma no_small_divisor_prime:
  fixes f x :: int
  assumes x: "1 < x" and f0: "0 \<le> f"
    and small: "\<forall>d. 2 \<le> d \<and> d < f \<longrightarrow> \<not> d dvd x" and ff: "x < f * f"
  shows "isPrime x"
  unfolding isPrime_def
proof (intro conjI ballI)
  show "2 \<le> x" using x by simp
  fix d
  assume d: "d \<in> {2..<x}"
  show "\<not> d dvd x"
  proof
    assume "d dvd x"
    then obtain e where e: "x = d * e" by (elim dvdE)
    have d2: "2 \<le> d" "d < x" using d by simp_all
    have e2: "2 \<le> e"
    proof (rule ccontr)
      assume "\<not> 2 \<le> e"
      then have "e \<le> 1" by simp
      then have "d * e \<le> d * 1" using d2 by (intro mult_left_mono) simp_all
      then show False using e d2 by simp
    qed
    have "e dvd x" using e by simp
    have df: "f \<le> d" using small d2 \<open>d dvd x\<close> by force
    have ef: "f \<le> e" using small e2 \<open>e dvd x\<close> by force
    have "f * f \<le> d * e" using df ef f0 by (intro mult_mono) simp_all
    then show False using ff e by simp
  qed
qed


lemma primeFactorsOf_prime:
  assumes "isPrime p"
  shows "primeFactorsOf p = {p}"
proof (intro set_eqI iffI)
  fix q assume "q \<in> primeFactorsOf p"
  then have q: "isPrime q" "q dvd p" by (simp_all add: primeFactorsOf_def)
  have "0 \<le> q" "q \<noteq> 1" using q(1) by (simp_all add: isPrime_def)
  then show "q \<in> {p}" using isPrime_divisors [OF assms, of q] q(2) by blast
next
  fix q assume "q \<in> {p}"
  then show "q \<in> primeFactorsOf p" using assms by (simp add: primeFactorsOf_def)
qed

lemma finish_set: "set (finish x out) = set out \<union> (if 1 < x then {x} else {})"
  by (simp add: finish_def pushDistinct_set)

lemma oddFactors_total:
  assumes "0 < x" "3 \<le> f" "\<forall>d. 2 \<le> d \<and> d < f \<longrightarrow> \<not> d dvd x" "odd f"
  shows "\<exists>x' out'. oddFactors f x out = Some (x', out') \<and>
           set (finish x' out') = set out \<union> primeFactorsOf x \<and>
           (distinct out \<longrightarrow> distinct (finish x' out'))"
  using assms
proof (induction "nat (2 * x - f)" arbitrary: f x out rule: less_induct)
  case less
  note small = less.prems(3)
  show ?case
  proof (cases "f * f \<le> x")
    case False
    have r: "oddFactors f x out = Some (x, out)"
      using False by (subst oddFactors.simps) simp
    have pf: "primeFactorsOf x = (if 1 < x then {x} else {})"
    proof (cases "1 < x")
      case True
      have "isPrime x"
        using True less.prems(2) small False by (intro no_small_divisor_prime [of x f]) simp_all
      then have "primeFactorsOf x = {x}" by (rule primeFactorsOf_prime)
      then show ?thesis using True by simp
    next
      case False
      then have "x = 1" using less.prems(1) by simp
      then show ?thesis by (simp add: primeFactorsOf_one)
    qed
    have "distinct out \<longrightarrow> distinct (finish x out)"
      by (simp add: finish_def pushDistinct_distinct)
    then show ?thesis
      using r pf by (simp add: finish_set)
  next
    case True
    have fx: "f \<le> x"
    proof -
      have "f * 1 \<le> f * f" using less.prems(2) by (intro mult_left_mono) simp_all
      then show ?thesis using True by simp
    qed
    have sm: "(x smod f = 0) = (f dvd x)"
      using less.prems by (intro smod_eq_0_iff_dvd) simp_all
    show ?thesis
    proof (cases "f dvd x")
      case dv: True
      then obtain y where y: "x = f * y" by (elim dvdE)
      have y0: "0 < y" using less.prems(1,2) y by (simp add: zero_less_mult_iff)
      have sd: "x sdiv f = y" using less.prems(1,2) y by (simp add: sdiv_nonneg_eq_div)
      have fp: "isPrime f"
        unfolding isPrime_def
      proof (intro conjI ballI)
        show "2 \<le> f" using less.prems(2) by simp
        fix d assume "d \<in> {2..<f}"
        then have "\<not> d dvd x" using small by simp
        then show "\<not> d dvd f" using dv dvd_trans by blast
      qed
      have yx: "y < x"
      proof -
        have "1 * y < f * y" using less.prems(2) y0 by (intro mult_strict_right_mono) simp_all
        then show ?thesis using y by simp
      qed
      have m: "nat (2 * y - f) < nat (2 * x - f)" using yx fx less.prems by simp
      have small': "\<forall>d. 2 \<le> d \<and> d < f \<longrightarrow> \<not> d dvd y"
        using small y by (auto intro: dvd_mult)
      from less.hyps [OF m y0 less.prems(2) small' less.prems(4), of "pushDistinct f out"]
      obtain x' out' where r: "oddFactors f y (pushDistinct f out) = Some (x', out')"
        "set (finish x' out') = set (pushDistinct f out) \<union> primeFactorsOf y"
        "distinct (pushDistinct f out) \<longrightarrow> distinct (finish x' out')"
        by blast
      have "oddFactors f x out = Some (x', out')"
        using True dv sm sd r(1) less.prems(2) by (subst oddFactors.simps) simp
      moreover have "set (finish x' out') = set out \<union> primeFactorsOf x"
        unfolding y primeFactorsOf_mult_prime [OF fp] using r(2) by (simp add: pushDistinct_set)
      moreover have "distinct out \<longrightarrow> distinct (finish x' out')"
        using r(3) by (simp add: pushDistinct_distinct)
      ultimately show ?thesis by blast
    next
      case ndv: False
      have m: "nat (2 * x - (f + 2)) < nat (2 * x - f)" using fx less.prems by simp
      have x2: "\<not> 2 dvd x" using small less.prems(2) by simp
      have small': "\<forall>d. 2 \<le> d \<and> d < f + 2 \<longrightarrow> \<not> d dvd x"
      proof (intro allI impI)
        fix d assume d: "2 \<le> d \<and> d < f + 2"
        then consider "d < f" | "d = f" | "d = f + 1" by linarith
        then show "\<not> d dvd x"
        proof cases
          case 1 then show ?thesis using small d by simp
        next
          case 2 then show ?thesis using ndv by simp
        next
          case 3
          have "2 dvd d" using 3 less.prems(4) by simp
          then show ?thesis using x2 dvd_trans by blast
        qed
      qed
      from less.hyps [OF m less.prems(1) _ small', of out] less.prems(2,4)
      obtain x' out' where r: "oddFactors (f + 2) x out = Some (x', out')"
        "set (finish x' out') = set out \<union> primeFactorsOf x"
        "distinct out \<longrightarrow> distinct (finish x' out')"
        by auto
      have "oddFactors f x out = Some (x', out')"
        using True ndv sm r(1) less.prems(2) by (subst oddFactors.simps) simp
      then show ?thesis using r(2,3) by blast
    qed
  qed
qed


lemma primeFactorsDistinct_correct:
  assumes "0 < n"
  shows "\<exists>fs. primeFactorsDistinct n = Some fs \<and> set fs = primeFactorsOf n \<and> distinct fs"
proof -
  from divideOutTwos_total [OF assms, of "[]"]
  obtain x out where d: "divideOutTwos n [] = Some (x, out)" "0 < x" "odd x"
    "set out = (if even n then {2} else {})"
    "primeFactorsOf n = (if even n then {2} else {}) \<union> primeFactorsOf x" "distinct out"
    by auto
  have small: "\<forall>d. 2 \<le> d \<and> d < 3 \<longrightarrow> \<not> d dvd x"
  proof (intro allI impI)
    fix d :: int assume "2 \<le> d \<and> d < 3"
    then have "d = 2" by simp
    then show "\<not> d dvd x" using d(3) by simp
  qed
  from oddFactors_total [OF d(2) _ small, of out]
  obtain x' out' where o: "oddFactors 3 x out = Some (x', out')"
    "set (finish x' out') = set out \<union> primeFactorsOf x" "distinct (finish x' out')"
    using d(6) by auto
  have "primeFactorsDistinct n = Some (finish x' out')"
    by (simp add: primeFactorsDistinct_def d(1) o(1) finish_def)
  moreover have "set (finish x' out') = primeFactorsOf n"
    using o(2) d(4,5) by simp
  ultimately show ?thesis using o(3) by blast
qed

lemma passesAll_eq:
  assumes "1 \<le> p" "0 \<le> phi" "\<forall>q\<in>set fs. 0 < q"
  shows "passesAll g phi p fs = Some (\<forall>q\<in>set fs. g ^ nat (phi div q) mod p \<noteq> 1)"
  using assms(3)
proof (induction fs)
  case Nil
  show ?case by simp
next
  case (Cons q qs)
  have q: "0 < q" using Cons.prems by simp
  have sd: "phi sdiv q = phi div q" using assms(2) q by (rule sdiv_nonneg_eq_div)
  have nn: "0 \<le> phi div q" using assms(2) q by (simp add: pos_imp_zdiv_nonneg_iff)
  have mp: "modPow g (phi div q) p = Some (g ^ nat (phi div q) mod p)"
    using assms(1) nn by (rule modPow_eq)
  have ih: "passesAll g phi p qs = Some (\<forall>q\<in>set qs. g ^ nat (phi div q) mod p \<noteq> 1)"
    using Cons by simp
  show ?case using q by (simp add: sd mp ih)
qed

lemma generator_criterion:
  assumes p: "isPrime p" and g: "\<not> p dvd g"
  shows "(ord p g = nat (p - 1)) =
         (\<forall>q\<in>primeFactorsOf (p - 1). g ^ nat ((p - 1) div q) mod p \<noteq> 1)"
proof
  have p2: "2 \<le> p" using p by (simp add: isPrime_def)
  assume o: "ord p g = nat (p - 1)"
  show "\<forall>q\<in>primeFactorsOf (p - 1). g ^ nat ((p - 1) div q) mod p \<noteq> 1"
  proof (intro ballI notI)
    fix q assume "q \<in> primeFactorsOf (p - 1)" and e: "g ^ nat ((p - 1) div q) mod p = 1"
    then have q: "2 \<le> q" "q dvd p - 1" by (simp_all add: primeFactorsOf_def isPrime_def)
    then obtain m where m: "p - 1 = q * m" by (elim dvdE)
    have "0 < q * m" using m p2 by simp
    then have m0: "0 < m" using q(1) by (simp add: zero_less_mult_iff)
    have dq: "(p - 1) div q = m" using m q(1) by simp
    have "ord p g dvd nat m" using e pow_eq_1_iff [OF p g] dq by simp
    then have "ord p g \<le> nat m" using m0 by (intro dvd_imp_le) simp_all
    moreover have "nat m < nat (q * m)"
    proof -
      have "1 * m < q * m" using q(1) m0 by (intro mult_strict_right_mono) simp_all
      then show ?thesis using m0 by simp
    qed
    moreover have "ord p g = nat (q * m)" using o m by simp
    ultimately show False by linarith
  qed
next
  have p2: "2 \<le> p" using p by (simp add: isPrime_def)
  assume a: "\<forall>q\<in>primeFactorsOf (p - 1). g ^ nat ((p - 1) div q) mod p \<noteq> 1"
  have dv: "ord p g dvd nat (p - 1)" by (rule ord_dvd_p1 [OF p g])
  then obtain m where m: "nat (p - 1) = ord p g * m" by (elim dvdE)
  have m0: "0 < m" using m p2 by (cases m) simp_all
  show "ord p g = nat (p - 1)"
  proof (cases "m = 1")
    case True
    then show ?thesis using m by simp
  next
    case False
    then have "1 < m" using m0 by simp
    from prime_divisor_exists [OF this]
    obtain q where q: "isPrime (int q)" "q dvd m" by blast
    then obtain m' where m': "m = q * m'" by (elim dvdE)
    have q0: "0 < q" using q(1) by (simp add: isPrime_def)
    have eq: "p - 1 = int q * int (ord p g * m')"
    proof -
      have "int (nat (p - 1)) = int (ord p g * (q * m'))" using m m' by simp
      then show ?thesis using p2 by (simp add: mult.assoc mult.left_commute)
    qed
    then have "int q dvd p - 1" by simp
    then have qf: "int q \<in> primeFactorsOf (p - 1)" using q(1) by (simp add: primeFactorsOf_def)
    have "(p - 1) div int q = int (ord p g * m')" using eq q0 by simp
    then have "nat ((p - 1) div int q) = ord p g * m'"
      by (simp only: nat_int)
    then have "g ^ nat ((p - 1) div int q) mod p = 1"
      using pow_eq_1_iff [OF p g, of "ord p g * m'"] by simp
    then show ?thesis using a qf by blast
  qed
qed

subsection \<open>findGenerator\<close>

lemma everAccepted_shift:
  assumes "everAccepted b r"
  shows "everAccepted b (\<lambda>i. r (i + m))"
  unfolding everAccepted_def
proof
  fix n
  from assms obtain k where "kthDraw b k (\<lambda>i. r (i + (n + m))) < b"
    unfolding everAccepted_def by blast
  then show "\<exists>k. kthDraw b k (\<lambda>i. r (i + n + m)) < b"
    by (auto simp add: add.assoc)
qed

lemma randomBigIntBelow_returns:
  assumes b: "0 < b" and e: "everAccepted b r"
  shows "\<exists>v m. randomBigIntBelow b r = Some (v, \<lambda>i. r (i + m)) \<and> 0 \<le> v \<and> v < b"
proof -
  from e have "\<exists>k. kthDraw b k (\<lambda>i. r (i + 0)) < b"
    unfolding everAccepted_def by blast
  then have ex: "\<exists>k. kthDraw b k r < b" by simp
  define k where "k = (LEAST k. kthDraw b k r < b)"
  have k: "kthDraw b k r < b" unfolding k_def using ex by (rule LeastI_ex)
  have least: "\<forall>j<k. \<not> kthDraw b j r < b"
    unfolding k_def using not_less_Least by blast
  have eq: "randomBigIntBelow b r = Some (kthDraw b k r, skipDraws (Suc k) (byteLenOf b) r)"
    by (rule randomBigIntBelow_first_accepted [OF b k least])
  have "0 \<le> kthDraw b k r \<and> kthDraw b k r < b"
    by (rule randomBigIntBelow_range [OF b eq])
  then show ?thesis using eq unfolding skipDraws_def by blast
qed

lemma randomBigIntInRange_returns:
  assumes "everAccepted (\<bar>mx - mn\<bar> + 1) r"
  shows "\<exists>v m. randomBigIntInRange mn mx r = Some (v, \<lambda>i. r (i + m))"
proof -
  have "0 < \<bar>mx - mn\<bar> + 1" by simp
  from randomBigIntBelow_returns [OF this assms]
  obtain v m where "randomBigIntBelow (\<bar>mx - mn\<bar> + 1) r = Some (v, \<lambda>i. r (i + m))" by blast
  then have "randomBigIntInRange mn mx r = Some (min mn mx + v, \<lambda>i. r (i + m))"
    by (simp add: randomBigIntInRange_eq)
  then show ?thesis by blast
qed

lemma randomBigIntInRange_never:
  assumes "\<forall>k. \<not> kthDraw (\<bar>mx - mn\<bar> + 1) k r < \<bar>mx - mn\<bar> + 1"
  shows "randomBigIntInRange mn mx r = None"
proof -
  have "0 < \<bar>mx - mn\<bar> + 1" by simp
  from randomBigIntBelow_never_accepted [OF this assms]
  show ?thesis by (simp add: randomBigIntInRange_eq)
qed

lemma attemptLoop_returns:
  assumes tot: "\<forall>g. passesAll g phi p fs \<noteq> None"
    and e: "everAccepted (\<bar>p - 2 - 2\<bar> + 1) r"
  shows "\<exists>res m. attemptLoop n p phi fs r = Some (res, \<lambda>i. r (i + m))"
  using e
proof (induction "64 - n" arbitrary: n r)
  case 0
  then have "\<not> n < 64" by simp
  then have "attemptLoop n p phi fs r = Some (None, \<lambda>i. r (i + 0))"
    by (subst attemptLoop.simps) simp
  then show ?case by blast
next
  case (Suc d)
  then have n: "n < 64" by simp
  from randomBigIntInRange_returns [OF Suc.prems]
  obtain v m where d: "randomBigIntInRange 2 (p - 2) r = Some (v, \<lambda>i. r (i + m))" by blast
  from tot obtain ok where ok: "passesAll v phi p fs = Some ok" by blast
  show ?case
  proof (cases ok)
    case True
    then have "attemptLoop n p phi fs r = Some (Some v, \<lambda>i. r (i + m))"
      using n d ok by (subst attemptLoop.simps) simp
    then show ?thesis by blast
  next
    case False
    have "d = 64 - (n + 1)" using Suc.hyps(2) by simp
    from Suc.hyps(1) [OF this everAccepted_shift [OF Suc.prems, of m]]
    obtain res m' where
      "attemptLoop (n + 1) p phi fs (\<lambda>i. r (i + m)) = Some (res, \<lambda>i. r (i + m' + m))"
      by blast
    then have "attemptLoop n p phi fs r = Some (res, \<lambda>i. r (i + (m' + m)))"
      using n d ok False by (subst attemptLoop.simps) (simp add: add.assoc)
    then show ?thesis by blast
  qed
qed

lemma attemptLoop_result:
  assumes "attemptLoop n p phi fs r = Some (Some g, r')"
  shows "min 2 (p - 2) \<le> g \<and> g \<le> max 2 (p - 2) \<and> passesAll g phi p fs = Some True"
  using assms
proof (induction "64 - n" arbitrary: n r)
  case 0
  then have "\<not> n < 64" by simp
  then have "attemptLoop n p phi fs r = Some (None, r)"
    by (subst attemptLoop.simps) simp
  then show ?case using "0.prems" by simp
next
  case (Suc d)
  then have n: "n < 64" by simp
  from Suc.prems n obtain v r1 where d: "randomBigIntInRange 2 (p - 2) r = Some (v, r1)"
    by (subst (asm) attemptLoop.simps) (auto split: option.splits)
  from Suc.prems n d obtain ok where ok: "passesAll v phi p fs = Some ok"
    by (subst (asm) attemptLoop.simps) (auto split: option.splits)
  show ?case
  proof (cases ok)
    case True
    then have "attemptLoop n p phi fs r = Some (Some v, r1)"
      using n d ok by (subst attemptLoop.simps) simp
    then have "g = v" using Suc.prems by simp
    then show ?thesis using True ok randomBigIntInRange_range [OF d] by simp
  next
    case False
    have "attemptLoop n p phi fs r = attemptLoop (n + 1) p phi fs r1"
      using n d ok False by (subst attemptLoop.simps) simp
    then have a: "attemptLoop (n + 1) p phi fs r1 = Some (Some g, r')" using Suc.prems by simp
    have "d = 64 - (n + 1)" using Suc.hyps(2) by simp
    from Suc.hyps(1) [OF this a] show ?thesis .
  qed
qed

lemma attemptLoop_never:
  assumes "randomBigIntInRange 2 (p - 2) r = None"
  shows "attemptLoop 0 p phi fs r = None"
  using assms by (subst attemptLoop.simps) simp

lemma linearSearch_found:
  assumes tot: "\<forall>g. passesAll g phi p fs = Some (P g)"
    and ex: "\<exists>g. c \<le> g \<and> g \<le> p - 2 \<and> P g"
  shows "\<exists>g. linearSearch c p phi fs = Some (Some g) \<and> c \<le> g \<and> g \<le> p - 2 \<and> P g"
  using ex
proof (induction "nat (p - 1 - c)" arbitrary: c rule: less_induct)
  case less
  from less.prems obtain g0 where g0: "c \<le> g0" "g0 \<le> p - 2" "P g0" by blast
  then have c: "c \<le> p - 2" by simp
  show ?case
  proof (cases "P c")
    case True
    then have "linearSearch c p phi fs = Some (Some c)"
      using c tot by (subst linearSearch.simps) simp
    then show ?thesis using True c by simp
  next
    case False
    then have "g0 \<noteq> c" using g0(3) by blast
    then have ex': "\<exists>g. c + 1 \<le> g \<and> g \<le> p - 2 \<and> P g" using g0 by (intro exI [of _ g0]) simp
    have "nat (p - 1 - (c + 1)) < nat (p - 1 - c)" using c by simp
    from less.hyps [OF this ex']
    obtain g where g: "linearSearch (c + 1) p phi fs = Some (Some g)" "c + 1 \<le> g" "g \<le> p - 2" "P g"
      by blast
    have "linearSearch c p phi fs = Some (Some g)"
      using c tot False g(1) by (subst linearSearch.simps) simp
    then show ?thesis using g by simp
  qed
qed

lemma linearSearch_total:
  assumes tot: "\<forall>g. passesAll g phi p fs = Some (P g)"
  shows "\<exists>y. linearSearch c p phi fs = Some y"
proof (induction "nat (p - 1 - c)" arbitrary: c rule: less_induct)
  case less
  show ?case
  proof (cases "c \<le> p - 2")
    case False
    then show ?thesis by (subst linearSearch.simps) simp
  next
    case True
    then have "nat (p - 1 - (c + 1)) < nat (p - 1 - c)" by simp
    from less.hyps [OF this] obtain y where "linearSearch (c + 1) p phi fs = Some y" by blast
    then show ?thesis using True tot by (subst linearSearch.simps) simp
  qed
qed

lemma ord_one:
  assumes "isPrime p"
  shows "ord p 1 = 1"
proof -
  have p: "1 < p" using assms by (simp add: isPrime_def)
  have "\<not> p dvd 1" using p by (intro not_dvd_small) simp_all
  from ord_props [OF assms this] have "0 < ord p 1" by simp
  moreover have "ord p 1 \<le> 1" using p by (intro ord_le) simp_all
  ultimately show ?thesis by simp
qed

lemma ord_minus_one:
  assumes "isPrime p"
  shows "ord p (p - 1) \<le> 2"
proof -
  have p: "1 < p" using assms by (simp add: isPrime_def)
  have "(p - 1) ^ 2 = 1 + (p - 2) * p" by (simp add: power2_eq_square algebra_simps)
  then have "(p - 1) ^ 2 mod p = 1 mod p" by (simp only: mod_mult_self1)
  then have "(p - 1) ^ 2 mod p = 1" using p by simp
  then show ?thesis by (intro ord_le) simp_all
qed

lemma generator_in_range:
  assumes p: "isPrime p" and p5: "5 \<le> p"
  shows "\<exists>g. 2 \<le> g \<and> g \<le> p - 2 \<and> ord p g = nat (p - 1)"
proof -
  from primitive_root_exists [OF p]
  obtain g where g: "g \<in> {1..<p}" "ord p g = nat (p - 1)" by blast
  have "g \<noteq> 1" using g(2) ord_one [OF p] p5 by auto
  moreover have "g \<noteq> p - 1" using g(2) ord_minus_one [OF p] p5 by auto
  ultimately show ?thesis using g by (intro exI [of _ g]) simp
qed

lemma kthDraw_zero: "kthDraw b k (\<lambda>_. 0) = 0"
proof -
  have "foldl (\<lambda>val byte. push_bit 8 val + uint byte) 0 (map (\<lambda>_. 0 :: 8 word) xs) = 0"
    for xs :: "nat list"
    by (induction xs) simp_all
  then show ?thesis
    by (simp add: kthDraw_def drawValue_def getRandomValues_def skipDraws_def bytesToBigInt_def)
qed

lemma findGenerator_unfold:
  assumes "primeFactorsDistinct (p - 1) = Some fs"
  shows "findGenerator p r =
     (case attemptLoop 0 p (p - 1) fs r of
        None \<Rightarrow> None
      | Some (Some g, r') \<Rightarrow> Some (g, r')
      | Some (None, r') \<Rightarrow>
          (case linearSearch 2 p (p - 1) fs of
             None \<Rightarrow> None
           | Some (Some g) \<Rightarrow> Some (g, r')
           | Some None \<Rightarrow> Some (2, r')))"
  using assms by (simp add: findGenerator_def Let_def split: option.splits prod.splits)

lemma findGenerator_sound:
  assumes p: "isPrime p" and p3: "3 \<le> p"
    and fs: "primeFactorsDistinct (p - 1) = Some fs" "set fs = primeFactorsOf (p - 1)"
    and res: "findGenerator p r = Some (g, r')"
  shows "2 \<le> g \<and> g \<le> max 2 (p - 2) \<and> passesAll g (p - 1) p fs = Some True"
proof -
  define P where "P g = (\<forall>q\<in>set fs. g ^ nat ((p - 1) div q) mod p \<noteq> 1)" for g
  have pos: "\<forall>q\<in>set fs. 0 < q" using fs(2) by (simp add: primeFactorsOf_def isPrime_def)
  have tot: "\<forall>g. passesAll g (p - 1) p fs = Some (P g)"
    unfolding P_def using p3 pos by (intro allI passesAll_eq) simp_all
  show ?thesis
  proof (cases "attemptLoop 0 p (p - 1) fs r")
    case None
    then show ?thesis using res by (simp add: findGenerator_unfold [OF fs(1)])
  next
    case (Some a)
    obtain found r1 where a: "a = (found, r1)" by (cases a)
    show ?thesis
    proof (cases found)
      case (Some g1)
      then have "g = g1" using res \<open>attemptLoop 0 p (p - 1) fs r = Some a\<close> a
        by (simp add: findGenerator_unfold [OF fs(1)])
      then have "attemptLoop 0 p (p - 1) fs r = Some (Some g, r1)"
        using \<open>attemptLoop 0 p (p - 1) fs r = Some a\<close> a Some by simp
      from attemptLoop_result [OF this]
      have r: "min 2 (p - 2) \<le> g" "g \<le> max 2 (p - 2)" "passesAll g (p - 1) p fs = Some True"
        by simp_all
      have "g \<noteq> 1"
      proof
        assume "g = 1"
        then have "P 1" using r(3) tot by simp
        moreover have "1 < nat (p - 1)" using p3 by simp
        from prime_divisor_exists [OF this] obtain q where q: "isPrime (int q)" "q dvd nat (p - 1)"
          by blast
        have "int q dvd int (nat (p - 1))" using q(2) by (simp only: int_dvd_int_iff)
        then have "int q dvd p - 1" using p3 by simp
        then have "int q \<in> set fs" using q(1) by (simp add: fs(2) primeFactorsOf_def)
        ultimately show False using p3 by (auto simp add: P_def)
      qed
      then show ?thesis using r p3 by simp
    next
      case None
      note al = \<open>attemptLoop 0 p (p - 1) fs r = Some a\<close> a None
      show ?thesis
      proof (cases "5 \<le> p")
        case True
        from generator_in_range [OF p True]
        obtain g0 where g0: "2 \<le> g0" "g0 \<le> p - 2" "ord p g0 = nat (p - 1)" by blast
        have "\<not> p dvd g0" using g0 by (intro not_dvd_small) simp_all
        from generator_criterion [OF p this] g0(3) have "P g0" by (simp add: P_def fs(2))
        then have "\<exists>g. 2 \<le> g \<and> g \<le> p - 2 \<and> P g" using g0 by blast
        from linearSearch_found [OF tot this]
        obtain g1 where g1: "linearSearch 2 p (p - 1) fs = Some (Some g1)" "2 \<le> g1" "g1 \<le> p - 2"
          "P g1" by blast
        have "g = g1" using res al g1(1) by (simp add: findGenerator_unfold [OF fs(1)])
        then show ?thesis using g1 tot by simp
      next
        case False
        have "p \<noteq> 4"
        proof
          assume "p = 4"
          then have "\<not> isPrime p" by (simp add: isPrime_def Bex_def) (intro exI [of _ 2], simp)
          then show False using p by simp
        qed
        then have p_eq: "p = 3" using False p3 by simp
        have ls: "linearSearch 2 p (p - 1) fs = Some None"
          unfolding p_eq by (subst linearSearch.simps) simp
        have g2: "g = 2" using res al ls by (simp add: findGenerator_unfold [OF fs(1)])
        have "primeFactorsOf (2 :: int) = {2}" by (rule primeFactorsOf_prime [OF isPrime_2])
        then have "P 2" unfolding P_def fs(2) p_eq by simp
        then show ?thesis using g2 tot by simp
      qed
    qed
  qed
qed

lemma passesAll_True_order:
  assumes p: "isPrime p" and p3: "3 \<le> p"
    and fs: "set fs = primeFactorsOf (p - 1)"
    and g: "1 \<le> g" "g < p"
    and pass: "passesAll g (p - 1) p fs = Some True"
  shows "ord p g = nat (p - 1) \<and>
         (\<forall>q\<in>set fs. \<exists>x. modPow g ((p - 1) sdiv q) p = Some x \<and> x \<noteq> 1)"
proof -
  have pos: "\<forall>q\<in>set fs. 0 < q" using fs by (simp add: primeFactorsOf_def isPrime_def)
  have "passesAll g (p - 1) p fs = Some (\<forall>q\<in>set fs. g ^ nat ((p - 1) div q) mod p \<noteq> 1)"
    using p3 pos by (intro passesAll_eq) simp_all
  then have P: "\<forall>q\<in>set fs. g ^ nat ((p - 1) div q) mod p \<noteq> 1" using pass by simp
  have nd: "\<not> p dvd g" using g by (intro not_dvd_small) simp_all
  have o: "ord p g = nat (p - 1)"
    using generator_criterion [OF p nd] P fs by simp
  have "\<exists>x. modPow g ((p - 1) sdiv q) p = Some x \<and> x \<noteq> 1" if q: "q \<in> set fs" for q
  proof -
    have q0: "0 < q" using pos q by simp
    have sd: "(p - 1) sdiv q = (p - 1) div q" using p3 q0 by (intro sdiv_nonneg_eq_div) simp_all
    have nn: "0 \<le> (p - 1) div q" using p3 q0 by (simp add: pos_imp_zdiv_nonneg_iff)
    have "modPow g ((p - 1) div q) p = Some (g ^ nat ((p - 1) div q) mod p)"
      using p3 nn by (intro modPow_eq) simp_all
    then show ?thesis using P q sd by simp
  qed
  then show ?thesis using o by blast
qed

lemma findGenerator_returns:
  assumes p: "isPrime p" and p3: "3 \<le> p"
    and fs: "primeFactorsDistinct (p - 1) = Some fs" "set fs = primeFactorsOf (p - 1)"
    and e: "everAccepted (\<bar>p - 4\<bar> + 1) r"
  shows "\<exists>g r'. findGenerator p r = Some (g, r')"
proof -
  have pos: "\<forall>q\<in>set fs. 0 < q" using fs(2) by (simp add: primeFactorsOf_def isPrime_def)
  have tot: "\<forall>g. passesAll g (p - 1) p fs =
     Some (\<forall>q\<in>set fs. g ^ nat ((p - 1) div q) mod p \<noteq> 1)"
    using p3 pos by (intro allI passesAll_eq) simp_all
  then have tot': "\<forall>g. passesAll g (p - 1) p fs \<noteq> None" by simp
  have e': "everAccepted (\<bar>p - 2 - 2\<bar> + 1) r" using e by simp
  from attemptLoop_returns [OF tot' e', of 0]
  obtain found m where a: "attemptLoop 0 p (p - 1) fs r = Some (found, \<lambda>i. r (i + m))" by blast
  show ?thesis
  proof (cases found)
    case (Some g)
    then show ?thesis using a by (simp add: findGenerator_unfold [OF fs(1)])
  next
    case None
    have "\<exists>y. linearSearch 2 p (p - 1) fs = Some y"
      using tot by (rule linearSearch_total)
    then show ?thesis using a None
      by (auto simp add: findGenerator_unfold [OF fs(1)] split: option.splits)
  qed
qed

lemma findGenerator_never:
  assumes fs: "primeFactorsDistinct (p - 1) = Some fs"
    and n: "\<forall>k. \<not> kthDraw (\<bar>p - 4\<bar> + 1) k r < \<bar>p - 4\<bar> + 1"
  shows "findGenerator p r = None"
proof -
  have "\<forall>k. \<not> kthDraw (\<bar>p - 2 - 2\<bar> + 1) k r < \<bar>p - 2 - 2\<bar> + 1" using n by simp
  then have "randomBigIntInRange 2 (p - 2) r = None" by (rule randomBigIntInRange_never)
  then have "attemptLoop 0 p (p - 1) fs r = None" by (rule attemptLoop_never)
  then show ?thesis by (simp add: findGenerator_unfold [OF fs])
qed

lemma isPrime_5: "isPrime 5"
  by code_simp

lemma primeFactorsDistinct_4: "primeFactorsDistinct 4 = Some [2]"
  by code_simp

lemma primeFactorsDistinct_22: "primeFactorsDistinct 22 = Some [2, 11]"
  by code_simp

lemma findGenerator_23_zero: "map_option fst (findGenerator 23 (\<lambda>_. 0)) = Some 5"
  by code_simp

lemma modPow_5_23: "modPow 5 11 23 = Some 22" "modPow 5 2 23 = Some 2"
  by code_simp+

lemma everAccepted_zero: "0 < b \<Longrightarrow> everAccepted b (\<lambda>_. 0)"
  by (simp add: everAccepted_def kthDraw_zero)

section \<open>The claims\<close>

text \<open>
  C6. For every base, every exponent \<open>e \<ge> 0\<close> and every modulus \<open>m \<ge> 1\<close>,
  \<^verbatim>\<open>modPow(base, e, m)\<close> returns \<open>base ^ e mod m\<close>, a value of \<open>[0, m)\<close>; a base that is
  negative or not below \<open>m\<close> gives the result of its residue \<open>base mod m\<close>; and the
  result is 0 when the modulus is 1.
\<close>

theorem modPow_spec:
  "(1 \<le> m \<and> 0 \<le> e \<longrightarrow>
      modPow base e m = Some ((base ^ nat e) mod m) \<and>
      modPow base e m = modPow (base mod m) e m) \<and>
   modPow base e 1 = Some 0"
proof -
  have "modPow base e m = modPow (base mod m) e m" if "1 \<le> m" "0 \<le> e"
    using that by (simp add: modPow_eq power_mod)
  then show ?thesis by (simp add: modPow_eq) (simp add: modPow_def)
qed

theorem modPow_spec_witness:
  "(1::int) \<le> 13 \<and> (0::int) \<le> 5 \<and> modPow (- 7) 5 13 = Some 2 \<and> modPow 6 5 13 = Some 2
   \<and> modPow (- 7) 5 1 = Some 0"
  using modPow_spec [of 13 5 "- 7"] modPow_spec [of 1 5 "- 7"] by auto

text \<open>
  C1. For a prime \<open>p\<close>, \<open>g\<close> in 2 .. p-1 and \<open>a\<close>, \<open>b\<close> in 2 .. p-2, the four calls of
  \<^verbatim>\<open>modPow\<close> return and both sides derive the same key:
  \<open>modPow (modPow g a p) b p = modPow (modPow g b p) a p\<close>. With the texts 23, 5, 6, 15 in
  the fields, nine steps give \<open>A = 8\<close>, \<open>B = 19\<close>, \<open>sAlice = 2\<close>, \<open>sBob = 2\<close>, and step 9
  shows a match.
\<close>

theorem dh_agreement:
  "(isPrime p \<and> 2 \<le> g \<and> g \<le> p - 1 \<and> 2 \<le> a \<and> a \<le> p - 2 \<and> 2 \<le> b \<and> b \<le> p - 2 \<longrightarrow>
      (\<exists>A B S. modPow g a p = Some A \<and> modPow g b p = Some B \<and>
         modPow A b p = Some S \<and> modPow B a p = Some S)) \<and>
   (\<exists>st. advance 9 (loaded ''23'' ''5'' ''6'' ''15'') = Some st \<and>
      st_A st = Some 8 \<and> st_B st = Some 19 \<and> sAlice st = Some 2 \<and> sBob st = Some 2 \<and>
      verification st = Some True)"
proof -
  have general: "\<exists>A B S. modPow g a p = Some A \<and> modPow g b p = Some B \<and>
         modPow A b p = Some S \<and> modPow B a p = Some S"
    if "isPrime p" "2 \<le> a" "2 \<le> b"
  proof -
    have p: "1 \<le> p" using that(1) by (simp add: isPrime_def)
    have e: "0 \<le> a" "0 \<le> b" using that by simp_all
    show ?thesis using p e keys_agree [of g "nat a" p "nat b"] by (simp add: modPow_eq)
  qed
  have idx: "stepIdx (loaded ''23'' ''5'' ''6'' ''15'') = 0" by (simp add: loaded_def)
  from advance_nine [OF readInputs_loaded(1) paramsOk_23 idx]
  obtain s9 where s9: "advance 9 (loaded ''23'' ''5'' ''6'' ''15'') = Some s9" "stepIdx s9 = 9"
    "st_A s9 = Some (5 ^ nat 6 mod 23)" "st_B s9 = Some (5 ^ nat 15 mod 23)"
    "sAlice s9 = Some ((5 ^ nat 15 mod 23) ^ nat 6 mod 23)"
    "sBob s9 = Some ((5 ^ nat 6 mod 23) ^ nat 15 mod 23)" by blast
  have vals: "(5::int) ^ nat 6 mod 23 = 8" "(5::int) ^ nat 15 mod 23 = 19"
    "(19::int) ^ nat 6 mod 23 = 2" "(8::int) ^ nat 15 mod 23 = 2"
    by simp_all
  have "st_A s9 = Some 8" "st_B s9 = Some 19" "sAlice s9 = Some 2" "sBob s9 = Some 2"
    using s9 by (simp_all only: vals)
  moreover from this s9(2) have "verification s9 = Some True"
    by (simp add: verification_def)
  ultimately show ?thesis using general s9(1) by blast
qed

theorem dh_agreement_witness:
  "isPrime 23 \<and> modPow 5 6 23 = Some 8 \<and> modPow 5 15 23 = Some 19 \<and>
   modPow 8 15 23 = Some 2 \<and> modPow 19 6 23 = Some 2"
proof -
  have ev: "modPow 5 6 23 = Some 8" "modPow 5 15 23 = Some 19"
    by (simp_all add: modPow_eq)
  from dh_agreement [of 23 5 6 15] isPrime_23
  have "\<exists>A B S. modPow 5 6 23 = Some A \<and> modPow 5 15 23 = Some B \<and>
         modPow A 15 23 = Some S \<and> modPow B 6 23 = Some S" by simp
  then have "\<exists>S. modPow 8 15 23 = Some S \<and> modPow 19 6 23 = Some S"
    unfolding ev by auto
  moreover have "modPow 8 15 23 = Some 2" by (simp add: modPow_eq)
  ultimately show ?thesis using isPrime_23 ev by auto
qed

text \<open>
  C3. From a state with cursor 0 whose field texts pass validation, nine successive calls
  of \<^verbatim>\<open>nextStep\<close> all return and reach cursor 9 with \<open>sAlice\<close> and \<open>sBob\<close> computed and
  equal; a tenth call returns the same state.
\<close>

theorem nine_advances:
  assumes "validateParams False st = Some (True, st1)" and "stepIdx st = 0"
  shows "\<exists>s9. advance 9 st = Some s9 \<and> stepIdx s9 = 9 \<and> sAlice s9 \<noteq> None \<and>
           sAlice s9 = sBob s9 \<and> nextStep s9 = Some s9"
proof -
  from assms(1) validateParams_True_iff [of False st]
  obtain P G Asec Bsec where ri: "readInputs st = Inr (P, G, Asec, Bsec)"
    and ok: "paramsOk P G Asec Bsec" by blast
  from advance_nine [OF ri ok assms(2)]
  obtain s9 where s9: "advance 9 st = Some s9" "stepIdx s9 = 9"
    "readInputs s9 = Inr (P, G, Asec, Bsec)"
    "st_p s9 = P" "st_g s9 = G" "st_a s9 = Asec" "st_b s9 = Bsec"
    "sAlice s9 = Some ((G ^ nat Bsec mod P) ^ nat Asec mod P)"
    "sBob s9 = Some ((G ^ nat Asec mod P) ^ nat Bsec mod P)" by blast
  have "nextStep s9 = Some s9"
    using s9 by (intro nextStep_at_end [OF s9(3) ok]) simp_all
  moreover have "sAlice s9 = sBob s9"
    unfolding s9 using keys_agree [of G "nat Bsec" P "nat Asec"] by simp
  moreover have "sAlice s9 \<noteq> None" using s9(8) by simp
  ultimately show ?thesis using s9(1,2) by blast
qed

theorem nine_advances_witness:
  "validateParams False (loaded ''23'' ''5'' ''6'' ''15'') =
     Some (True, loaded ''23'' ''5'' ''6'' ''15'') \<and>
   stepIdx (loaded ''23'' ''5'' ''6'' ''15'') = 0 \<and>
   (\<exists>s9. advance 9 (loaded ''23'' ''5'' ''6'' ''15'') = Some s9 \<and> stepIdx s9 = 9 \<and>
      sAlice s9 \<noteq> None \<and> sAlice s9 = sBob s9 \<and> nextStep s9 = Some s9)"
proof -
  have v: "validateParams False (loaded ''23'' ''5'' ''6'' ''15'') =
      Some (True, loaded ''23'' ''5'' ''6'' ''15'')"
    by (simp add: validateParams_accept [OF readInputs_loaded(1) paramsOk_23]) (simp add: loaded_def)
  have i: "stepIdx (loaded ''23'' ''5'' ''6'' ''15'') = 0" by (simp add: loaded_def)
  from nine_advances [OF v i] v i show ?thesis by blast
qed

text \<open>
  C5. The claim counts a composite \<open>p\<close> among the inputs on which validation fails and
  the cursor does not move. With the text 341550071728321 for \<open>p\<close> and 2 for \<open>g\<close>, \<open>a\<close>
  and \<open>b\<close>, validation succeeds although the number is 10670053 times 32010157:
  \<^verbatim>\<open>nextStep\<close> stores it as \<open>p\<close>, reports nothing and moves the cursor to 1.
\<close>

theorem composite_p_passes_validation:
  "(341550071728321 :: int) = 10670053 * 32010157 \<and>
   validateParams False (loaded ''341550071728321'' ''2'' ''2'' ''2'') =
     Some (True, (loaded ''341550071728321'' ''2'' ''2'' ''2'')
                   \<lparr>st_p := 341550071728321, st_g := 2, st_a := 2, st_b := 2\<rparr>) \<and>
   (\<exists>st'. nextStep (loaded ''341550071728321'' ''2'' ''2'' ''2'') = Some st' \<and>
      stepIdx st' = 1 \<and> st_p st' = 341550071728321 \<and> msgBox st' = [])"
proof (intro conjI)
  show "(341550071728321 :: int) = 10670053 * 32010157" by simp
  show "validateParams False (loaded ''341550071728321'' ''2'' ''2'' ''2'') =
     Some (True, (loaded ''341550071728321'' ''2'' ''2'' ''2'')
                   \<lparr>st_p := 341550071728321, st_g := 2, st_a := 2, st_b := 2\<rparr>)"
    by (simp add: validateParams_accept [OF readInputs_psp paramsOk_psp])
  have lt: "stepIdx (loaded ''341550071728321'' ''2'' ''2'' ''2'') < 9"
    by (simp add: loaded_def)
  have "nextStep (loaded ''341550071728321'' ''2'' ''2'' ''2'') =
      Some (updateComputedBoxes ((loaded ''341550071728321'' ''2'' ''2'' ''2'')
        \<lparr>st_p := 341550071728321, st_g := 2, st_a := 2, st_b := 2, stepIdx := 1\<rparr>))"
    by (simp add: nextStep_accept [OF readInputs_psp paramsOk_psp] stepSwitch_def)
      (simp add: loaded_def)
  then show "\<exists>st'. nextStep (loaded ''341550071728321'' ''2'' ''2'' ''2'') = Some st' \<and>
      stepIdx st' = 1 \<and> st_p st' = 341550071728321 \<and> msgBox st' = []"
    by (simp add: updateComputedBoxes_def loaded_def)
qed

text \<open>
  C10. When the field \<open>p\<close> holds 2, validation fails with the message that \<open>p\<close> must be
  at least 3, which is not the message given for a \<open>p \<ge> 3\<close> that the primality test
  rejects, and the state is otherwise unchanged; yet 2 is a prime and \<^verbatim>\<open>isProbablePrime\<close>
  accepts it.
\<close>

theorem p_two_rejected:
  "(readInputs st = Inr (2, G, Asec, Bsec) \<longrightarrow>
      validateParams True st = Some (False, st\<lparr>msgBox := ''p harus >= 3.''\<rparr>) \<and>
      validateParams False st = Some (False, st)) \<and>
   (readInputs st = Inr (P, G, Asec, Bsec) \<and> 3 \<le> P \<and> isProbablePrime P = Some False \<longrightarrow>
      validateParams True st = Some (False, st\<lparr>msgBox := ''p tampaknya bukan prima.''\<rparr>)) \<and>
   ''p harus >= 3.'' \<noteq> ''p tampaknya bukan prima.'' \<and>
   isPrime 2 \<and> isProbablePrime 2 = Some True"
  by (simp add: validateParams_def reject_def setMessage_def isPrime_2 isProbablePrime_small)

theorem p_two_rejected_witness:
  "readInputs (loaded ''2'' ''5'' ''6'' ''15'') = Inr (2, 5, 6, 15) \<and>
   validateParams True (loaded ''2'' ''5'' ''6'' ''15'') =
     Some (False, (loaded ''2'' ''5'' ''6'' ''15'')\<lparr>msgBox := ''p harus >= 3.''\<rparr>) \<and>
   validateParams False (loaded ''2'' ''5'' ''6'' ''15'') =
     Some (False, loaded ''2'' ''5'' ''6'' ''15'') \<and>
   readInputs (loaded ''15'' ''5'' ''6'' ''15'') = Inr (15, 5, 6, 15) \<and>
   validateParams True (loaded ''15'' ''5'' ''6'' ''15'') =
     Some (False, (loaded ''15'' ''5'' ''6'' ''15'')\<lparr>msgBox := ''p tampaknya bukan prima.''\<rparr>)"
  using p_two_rejected [of "loaded ''2'' ''5'' ''6'' ''15''" 5 6 15 2]
    p_two_rejected [of "loaded ''15'' ''5'' ''6'' ''15''" 5 6 15 15]
    readInputs_loaded(2,3) isProbablePrime_small(2)
  by simp

text \<open>
  C2. The claim is that below \<open>2 ^ 64\<close> the test accepts exactly the primes. The number
  341550071728321 is below \<open>2 ^ 64\<close> and is the product of 10670053 and 32010157, yet
  \<^verbatim>\<open>isProbablePrime\<close> accepts it: no prime up to 37 divides it and it is a strong
  pseudoprime to each of the seven bases.
\<close>

theorem isProbablePrime_accepts_composite:
  "isProbablePrime 341550071728321 = Some True \<and>
   (341550071728321 :: int) = 10670053 * 32010157 \<and>
   (341550071728321 :: int) < 2 ^ 64 \<and>
   \<not> isPrime 341550071728321"
proof -
  have "(10670053 :: int) dvd 341550071728321"
    by (rule dvdI [of _ _ 32010157]) simp
  then have "\<not> isPrime 341550071728321"
    by (auto simp: isPrime_def intro!: bexI [of _ 10670053])
  then show ?thesis using psp_accepted by simp
qed

theorem isProbablePrime_accepts_composite_witness:
  "(10670053 :: int) \<in> {2..<341550071728321} \<and> (10670053 :: int) dvd 341550071728321 \<and>
   isProbablePrime 341550071728321 = Some True"
proof (intro conjI)
  show "(10670053 :: int) \<in> {2..<341550071728321}" by simp
  show "(10670053 :: int) dvd 341550071728321"
    by (rule dvdI [of _ _ 32010157]) simp
  show "isProbablePrime 341550071728321 = Some True"
    by (rule isProbablePrime_accepts_composite [THEN conjunct1])
qed

text \<open>
  C9. The claim that \<^verbatim>\<open>randomBigIntBelow\<close> returns for every sequence of random bytes
  fails on a source whose every draw is rejected: with the bound 2 and every byte 255 the
  masked value of each draw is 3, and the loop never exits.
\<close>

theorem randomBigIntBelow_may_not_return:
  "randomBigIntBelow 2 (\<lambda>_. 255) = None"
proof (rule randomBigIntBelow_never_accepted)
  show "\<forall>k. \<not> kthDraw 2 k (\<lambda>_. 255) < 2"
    by (simp add: draw_eval)
qed simp

text \<open>
  C9, as amended. \<^verbatim>\<open>randomBigIntBelow(0)\<close> returns 0 and leaves the source untouched. For
  a bound above 0, every value returned lies in \<open>[0, bound)\<close>; the call returns exactly when
  some draw is accepted, and then returns the first accepted draw; when every draw is
  rejected it does not return. \<^verbatim>\<open>randomBigIntInRange(min, max)\<close> gives the same result for
  both orders of its endpoints, is the smaller endpoint plus a draw below the size of the
  range, and every value it returns lies between the endpoints.
\<close>

theorem randomBigInt_spec:
  "randomBigIntBelow 0 r = Some (0, r) \<and>
   (0 < bound \<and> randomBigIntBelow bound r = Some (v, r') \<longrightarrow> 0 \<le> v \<and> v < bound) \<and>
   (0 < bound \<and> kthDraw bound k r < bound \<and> (\<forall>j<k. \<not> kthDraw bound j r < bound) \<longrightarrow>
      randomBigIntBelow bound r =
        Some (kthDraw bound k r, skipDraws (Suc k) (byteLenOf bound) r)) \<and>
   (0 < bound \<and> (\<forall>k. \<not> kthDraw bound k r < bound) \<longrightarrow> randomBigIntBelow bound r = None) \<and>
   randomBigIntInRange mn mx r = randomBigIntInRange mx mn r \<and>
   randomBigIntInRange mn mx r =
     map_option (\<lambda>(off, r'). (min mn mx + off, r')) (randomBigIntBelow (\<bar>mx - mn\<bar> + 1) r) \<and>
   (randomBigIntInRange mn mx r = Some (w, r'') \<longrightarrow> min mn mx \<le> w \<and> w \<le> max mn mx)"
proof (intro conjI impI)
  show "randomBigIntBelow 0 r = Some (0, r)" by (simp add: randomBigIntBelow_def)
  show "0 \<le> v" "v < bound" if "0 < bound \<and> randomBigIntBelow bound r = Some (v, r')"
    using randomBigIntBelow_range [of bound r v r'] that by simp_all
  show "randomBigIntBelow bound r =
        Some (kthDraw bound k r, skipDraws (Suc k) (byteLenOf bound) r)"
    if "0 < bound \<and> kthDraw bound k r < bound \<and> (\<forall>j<k. \<not> kthDraw bound j r < bound)"
    using randomBigIntBelow_first_accepted [of bound k r] that by simp
  show "randomBigIntBelow bound r = None"
    if "0 < bound \<and> (\<forall>k. \<not> kthDraw bound k r < bound)"
    using randomBigIntBelow_never_accepted [of bound r] that by simp
  show "randomBigIntInRange mn mx r = randomBigIntInRange mx mn r"
    by (rule randomBigIntInRange_swap)
  show "randomBigIntInRange mn mx r =
     map_option (\<lambda>(off, r'). (min mn mx + off, r')) (randomBigIntBelow (\<bar>mx - mn\<bar> + 1) r)"
    by (rule randomBigIntInRange_eq)
  show "min mn mx \<le> w" "w \<le> max mn mx" if "randomBigIntInRange mn mx r = Some (w, r'')"
    using randomBigIntInRange_range [OF that] by simp_all
qed

theorem randomBigInt_spec_witness:
  "randomBigIntBelow 1000 (\<lambda>i. if i < 2 then 255 else 3) = Some (771, \<lambda>i. 3) \<and>
   (0::int) \<le> 771 \<and> (771::int) < 1000 \<and>
   kthDraw 1000 1 (\<lambda>i. if i < 2 then 255 else 3) = 771 \<and>
   \<not> kthDraw 1000 0 (\<lambda>i. if i < 2 then 255 else 3) < 1000 \<and>
   (\<forall>k. \<not> kthDraw 2 k (\<lambda>_. 255) < 2) \<and> randomBigIntBelow 2 (\<lambda>_. 255) = None \<and>
   randomBigIntInRange 30 21 (\<lambda>i. 3) = Some (24, \<lambda>i. 3) \<and>
   randomBigIntInRange 21 30 (\<lambda>i. 3) = Some (24, \<lambda>i. 3)"
proof -
  let ?r = "\<lambda>i::nat. if i < 2 then 255 else 3 :: 8 word"
  let ?c = "\<lambda>i::nat. 3 :: 8 word"
  have k1: "kthDraw 1000 1 ?r = 771" and k0: "kthDraw 1000 0 ?r = 1023"
    and bl: "byteLenOf 1000 = 2"
    by (simp_all add: draw_eval)
  have rest: "skipDraws (Suc 1) 2 ?r = ?c"
    by (simp add: skipDraws_def)
  have never: "\<forall>k. \<not> kthDraw 2 k (\<lambda>_. 255) < 2"
    by (simp add: draw_eval)
  have b10: "kthDraw 10 0 ?c = 3" "skipDraws (Suc 0) (byteLenOf 10) ?c = ?c"
    by (simp_all add: draw_eval)
  note first = randomBigInt_spec [THEN conjunct2, THEN conjunct2, THEN conjunct1, rule_format]
  note none = randomBigInt_spec [THEN conjunct2, THEN conjunct2, THEN conjunct2, THEN conjunct1,
      rule_format]
  note range = randomBigInt_spec [THEN conjunct2, THEN conjunct2, THEN conjunct2,
      THEN conjunct2, THEN conjunct2, THEN conjunct1]
  have below: "randomBigIntBelow 1000 ?r = Some (771, ?c)"
    using first [of 1000 1 ?r] k0 k1 bl rest by (simp add: less_Suc_eq)
  have never_returns: "randomBigIntBelow 2 (\<lambda>_. 255) = None"
    using none [of 2 "\<lambda>_. 255"] never by simp
  have below10: "randomBigIntBelow 10 ?c = Some (3, ?c)"
    using first [of 10 0 ?c] b10 by simp
  have inr: "randomBigIntInRange 30 21 ?c = Some (24, ?c)"
    "randomBigIntInRange 21 30 ?c = Some (24, ?c)"
    by (simp_all add: range below10)
  show ?thesis using below k0 k1 never never_returns inr by simp
qed

text \<open>
  C8. The general part of the claim, that the value returned is a prime found by one of
  the two scans of the normalised range, fails on a range without primes: for the bounds 25
  and 27 neither scan finds a prime and the last statement returns 101.
\<close>

theorem randomPrimeInRange_last_resort:
  "normalizeRange 25 27 = (25, 27) \<and>
   randomPrimeInRange 25 27 (\<lambda>_. 0) = Some (101, \<lambda>_. 0) \<and> \<not> (101 :: int) \<le> 27"
  by (simp add: normalizeRange_25_27 randomPrimeInRange_eq [OF normalizeRange_25_27] draw_zero_3
      randomScan.simps fallbackScan.simps isProbablePrime_25_27 signed_divide_int_def)

text \<open>
  C8, as amended. Every value returned by \<^verbatim>\<open>randomPrimeInRange(401, 2000)\<close>, for every
  source of random bytes, is an odd prime of \<open>[401, 2000]\<close>. In general the bounds are
  normalised to an ordered pair of odd numbers that are at least 5, and the call returns
  exactly when the draw of the starting candidate returns. On a normalised range where the
  primality test accepts no composite, as on every range below 2000, a value returned is
  either an odd prime of that range, found by one of the two scans, or 101 when the scans
  find no number of the range. Nothing is stated for a range on which the test accepts a
  composite.
\<close>

theorem randomPrimeInRange_spec:
  "(randomPrimeInRange 401 2000 r = Some (v, r') \<longrightarrow>
      isPrime v \<and> odd v \<and> 401 \<le> v \<and> v \<le> 2000) \<and>
   (normalizeRange mn mx = (lo, hi) \<longrightarrow>
      5 \<le> lo \<and> lo \<le> hi \<and> odd lo \<and> odd hi \<and>
      ((randomPrimeInRange mn mx r = None) = (randomBigIntInRange lo hi r = None)) \<and>
      (hi < 2000 \<longrightarrow> (\<forall>n. lo \<le> n \<and> n \<le> hi \<and> isProbablePrime n = Some True \<longrightarrow> isPrime n)) \<and>
      (randomPrimeInRange mn mx r = Some (w, r'') \<and>
       (\<forall>n. lo \<le> n \<and> n \<le> hi \<and> isProbablePrime n = Some True \<longrightarrow> isPrime n) \<longrightarrow>
         (isPrime w \<and> isProbablePrime w = Some True \<and> odd w \<and> lo \<le> w \<and> w \<le> hi) \<or>
         (w = 101 \<and> (\<forall>n. lo \<le> n \<and> n \<le> hi \<and> odd n \<longrightarrow> isProbablePrime n \<noteq> Some True))))"
proof (intro conjI impI)
  assume ret: "randomPrimeInRange 401 2000 r = Some (v, r')"
  from randomPrimeInRange_result [OF normalizeRange_401_2000 ret]
  have acc: "isProbablePrime v = Some True \<and> odd v \<and> 401 \<le> v \<and> v \<le> 1999"
    using isProbablePrime_401 by auto
  then show "odd v" "401 \<le> v" "v \<le> 2000" by simp_all
  from acc show "isPrime v" by (intro isProbablePrime_sound_below_2000) simp_all
next
  assume nr: "normalizeRange mn mx = (lo, hi)"
  from normalizeRange_props [OF nr] show "5 \<le> lo" "lo \<le> hi" "odd lo" "odd hi" by simp_all
  show "(randomPrimeInRange mn mx r = None) = (randomBigIntInRange lo hi r = None)"
    by (rule randomPrimeInRange_None_iff [OF nr])
  show "\<forall>n. lo \<le> n \<and> n \<le> hi \<and> isProbablePrime n = Some True \<longrightarrow> isPrime n" if "hi < 2000"
    using that isProbablePrime_sound_below_2000 by auto
  assume a: "randomPrimeInRange mn mx r = Some (w, r'') \<and>
       (\<forall>n. lo \<le> n \<and> n \<le> hi \<and> isProbablePrime n = Some True \<longrightarrow> isPrime n)"
  from randomPrimeInRange_result [OF nr a [THEN conjunct1]] a [THEN conjunct2]
  show "(isPrime w \<and> isProbablePrime w = Some True \<and> odd w \<and> lo \<le> w \<and> w \<le> hi) \<or>
         (w = 101 \<and> (\<forall>n. lo \<le> n \<and> n \<le> hi \<and> odd n \<longrightarrow> isProbablePrime n \<noteq> Some True))"
    by blast
qed

theorem randomPrimeInRange_spec_witness:
  "randomPrimeInRange 401 2000 (\<lambda>_. 0) = Some (401, \<lambda>_. 0) \<and>
   normalizeRange 401 2000 = (401, 1999) \<and> (1999 :: int) < 2000 \<and>
   \<not> (\<exists>n. 401 \<le> n \<and> n \<le> 1999 \<and> isProbablePrime n = Some True \<and> \<not> isPrime n) \<and>
   isPrime 401 \<and> isProbablePrime 401 = Some True \<and> odd (401 :: int) \<and>
   (randomPrimeInRange 401 2000 (\<lambda>_. 255) = None) =
     (randomBigIntInRange 401 1999 (\<lambda>_. 255) = None)"
proof -
  note s = randomPrimeInRange_spec [of "\<lambda>_. 0" 401 "\<lambda>_. 0" 401 2000 401 1999 401 "\<lambda>_. 0"]
  note t = randomPrimeInRange_spec [of "\<lambda>_. 255" 401 "\<lambda>_. 0" 401 2000 401 1999 401 "\<lambda>_. 0"]
  have snd: "\<forall>n. 401 \<le> n \<and> n \<le> 1999 \<and> isProbablePrime n = Some True \<longrightarrow> isPrime n"
    using s [THEN conjunct2] normalizeRange_401_2000 by simp
  have "(isPrime 401 \<and> isProbablePrime 401 = Some True \<and> odd (401 :: int) \<and>
         (401 :: int) \<le> 401 \<and> (401 :: int) \<le> 1999) \<or>
        ((401 :: int) = 101 \<and>
         (\<forall>n. 401 \<le> n \<and> n \<le> 1999 \<and> odd n \<longrightarrow> isProbablePrime n \<noteq> Some True))"
    using s [THEN conjunct2] normalizeRange_401_2000 randomPrimeInRange_401_zero snd by blast
  then have p: "isPrime 401" by simp
  have iff: "(randomPrimeInRange 401 2000 (\<lambda>_. 255) = None) =
      (randomBigIntInRange 401 1999 (\<lambda>_. 255) = None)"
    using t [THEN conjunct2] normalizeRange_401_2000 by simp
  have nocomp: "\<not> (\<exists>n. 401 \<le> n \<and> n \<le> 1999 \<and> isProbablePrime n = Some True \<and> \<not> isPrime n)"
    using snd by blast
  show ?thesis
    using p nocomp iff randomPrimeInRange_401_zero normalizeRange_401_2000 isProbablePrime_401
    by simp
qed

text \<open>
  C4. The claim that a derived value is computed exactly once per run, and never recomputed
  once known, fails: after three advances and one retreat \<open>A\<close> is known, and the next
  advance executes the assignment of \<open>A\<close> again.
\<close>

theorem known_value_recomputed:
  "\<exists>st. run [Advance, Advance, Advance, Retreat] (loaded ''23'' ''5'' ''6'' ''15'') = Some st \<and>
     st_A st = Some 8 \<and> computedBy st = [DA]"
proof -
  from run_three_advances_retreat obtain st where
    st: "run [Advance, Advance, Advance, Retreat] (loaded ''23'' ''5'' ''6'' ''15'') = Some st"
    "stepIdx st = 2" "st_A st = Some 8" "readInputs st = Inr (23, 5, 6, 15)" by blast
  have "computedBy st = [DA]"
    using st(2) by (simp add: computedBy_def validateParams_accept [OF st(4) paramsOk_23]
        TOTAL_STEPS_def)
  with st(1,3) show ?thesis by blast
qed

text \<open>
  C4, as amended. In every run from a state with cursor 0 and no derived value: each call
  returns; a derived value is known exactly when the cursor has reached its step (3 for
  \<open>A\<close>, 5 for \<open>B\<close>, 7 for \<open>sAlice\<close>, 8 for \<open>sBob\<close>) at some point of the run, and is then
  the value \<^verbatim>\<open>modPow\<close> gives on the stored quadruple; an advance leaves every known value
  as it is, and gives the state that the compute-once stepper gives, although it executes
  the assignment again; a retreat changes no derived value.
\<close>

theorem derived_values_memoized:
  assumes "runStart st0"
  shows "\<exists>st. run ops st0 = Some st \<and>
           nextStep st = nextStep_computeOnce st \<and>
           (\<forall>st'. nextStep st = Some st' \<longrightarrow>
              (st_A st \<noteq> None \<longrightarrow> st_A st' = st_A st) \<and>
              (st_B st \<noteq> None \<longrightarrow> st_B st' = st_B st) \<and>
              (sAlice st \<noteq> None \<longrightarrow> sAlice st' = sAlice st) \<and>
              (sBob st \<noteq> None \<longrightarrow> sBob st' = sBob st)) \<and>
           st_A (prevStep st) = st_A st \<and> st_B (prevStep st) = st_B st \<and>
           sAlice (prevStep st) = sAlice st \<and> sBob (prevStep st) = sBob st \<and>
           (st_A st \<noteq> None) = visited 3 ops st0 \<and>
           (st_B st \<noteq> None) = visited 5 ops st0 \<and>
           (sAlice st \<noteq> None) = visited 7 ops st0 \<and>
           (sBob st \<noteq> None) = visited 8 ops st0 \<and>
           (\<forall>v. st_A st = Some v \<longrightarrow> modPow (st_g st) (st_a st) (st_p st) = Some v) \<and>
           (\<forall>v. st_B st = Some v \<longrightarrow> modPow (st_g st) (st_b st) (st_p st) = Some v) \<and>
           (\<forall>v. sAlice st = Some v \<longrightarrow>
              (\<exists>vB. st_B st = Some vB \<and> modPow vB (st_a st) (st_p st) = Some v)) \<and>
           (\<forall>v. sBob st = Some v \<longrightarrow>
              (\<exists>vA. st_A st = Some vA \<and> modPow vA (st_b st) (st_p st) = Some v))"
proof (cases "\<exists>P G Asec Bsec. readInputs st0 = Inr (P, G, Asec, Bsec) \<and> paramsOk P G Asec Bsec")
  case True
  then obtain P G Asec Bsec where ri: "readInputs st0 = Inr (P, G, Asec, Bsec)"
    and ok: "paramsOk P G Asec Bsec" by blast
  from run_valid_invariant [OF assms ri ok, of ops]
  obtain st where st: "run ops st0 = Some st" "readInputs st = Inr (P, G, Asec, Bsec)"
    "0 \<le> stepIdx st" "stepIdx st \<le> 9"
    "visited 1 ops st0 \<longrightarrow> st_p st = P \<and> st_g st = G \<and> st_a st = Asec \<and> st_b st = Bsec"
    "st_A st = (if visited 3 ops st0 then Some (G ^ nat Asec mod P) else None)"
    "st_B st = (if visited 5 ops st0 then Some (G ^ nat Bsec mod P) else None)"
    "sAlice st = (if visited 7 ops st0 then Some ((G ^ nat Bsec mod P) ^ nat Asec mod P) else None)"
    "sBob st = (if visited 8 ops st0 then Some ((G ^ nat Asec mod P) ^ nat Bsec mod P) else None)"
    by blast
  have v75: "visited 7 ops st0 \<Longrightarrow> visited 5 ops st0"
    and v83: "visited 8 ops st0 \<Longrightarrow> visited 3 ops st0"
    by (rule visited_mono [rotated], assumption, simp)+
  have quad: "st_p st = P \<and> st_g st = G \<and> st_a st = Asec \<and> st_b st = Bsec"
    if "visited k ops st0" "1 \<le> k" for k
    using st(5) visited_mono [OF that(2,1)] by simp
  have pre: "1 \<le> P" "0 \<le> Asec" "0 \<le> Bsec" using ok by (simp_all add: paramsOk_def)
  have sound: "memoSound P G Asec Bsec st"
    using v75 v83 by (auto simp: memoSound_def st(6-9))
  have refine: "nextStep st = nextStep_computeOnce st"
  proof (rule nextStep_computeOnce_eq)
    fix P' G' Asec' Bsec'
    assume "readInputs st = Inr (P', G', Asec', Bsec')"
    with st(2) have "P' = P" "G' = G" "Asec' = Asec" "Bsec' = Bsec" by simp_all
    with sound show "memoSound P' G' Asec' Bsec' st" by simp
  qed
  have keep: "(st_A st \<noteq> None \<longrightarrow> st_A st' = st_A st) \<and>
              (st_B st \<noteq> None \<longrightarrow> st_B st' = st_B st) \<and>
              (sAlice st \<noteq> None \<longrightarrow> sAlice st' = sAlice st) \<and>
              (sBob st \<noteq> None \<longrightarrow> sBob st' = sBob st)" if ns: "nextStep st = Some st'" for st'
  proof (cases "stepIdx st < 9")
    case True
    from nextStep_effect [OF st(2) ok True] ns
    have "st_A st' = (if stepIdx st = 2 then Some (G ^ nat Asec mod P)
                       else if stepIdx st = 7 \<and> st_A st = None then Some (G ^ nat Asec mod P)
                       else st_A st)"
      "st_B st' = (if stepIdx st = 4 then Some (G ^ nat Bsec mod P)
                       else if stepIdx st = 6 \<and> st_B st = None then Some (G ^ nat Bsec mod P)
                       else st_B st)"
      "sAlice st' = (if stepIdx st = 6
                         then Some ((case st_B st of None \<Rightarrow> G ^ nat Bsec mod P | Some v \<Rightarrow> v)
                                      ^ nat Asec mod P)
                         else sAlice st)"
      "sBob st' = (if stepIdx st = 7
                       then Some ((case st_A st of None \<Rightarrow> G ^ nat Asec mod P | Some v \<Rightarrow> v)
                                    ^ nat Bsec mod P)
                       else sBob st)" by auto
    then show ?thesis using v75 v83 by (auto simp: st(6-9))
  next
    case False
    with st(4) have "stepIdx st \<ge> 9" by simp
    with ns show ?thesis by (auto simp: nextStep_accept [OF st(2) ok])
  qed
  have vals: "(\<forall>v. st_A st = Some v \<longrightarrow> modPow (st_g st) (st_a st) (st_p st) = Some v) \<and>
           (\<forall>v. st_B st = Some v \<longrightarrow> modPow (st_g st) (st_b st) (st_p st) = Some v) \<and>
           (\<forall>v. sAlice st = Some v \<longrightarrow>
              (\<exists>vB. st_B st = Some vB \<and> modPow vB (st_a st) (st_p st) = Some v)) \<and>
           (\<forall>v. sBob st = Some v \<longrightarrow>
              (\<exists>vA. st_A st = Some vA \<and> modPow vA (st_b st) (st_p st) = Some v))"
    using quad [of 3] quad [of 5] quad [of 7] quad [of 8] v75 v83 pre
    by (auto simp: st(6-9) modPow_eq split: if_splits)
  have known: "(st_A st \<noteq> None) = visited 3 ops st0" "(st_B st \<noteq> None) = visited 5 ops st0"
    "(sAlice st \<noteq> None) = visited 7 ops st0" "(sBob st \<noteq> None) = visited 8 ops st0"
    by (simp_all add: st(6-9))
  show ?thesis
    using st(1) refine keep known vals
    by (intro exI [of _ st]) (simp add: prevStep_fields)
next
  case False
  from run_invalid_invariant [OF assms False, of ops]
  obtain st where st: "run ops st0 = Some st" "readInputs st = readInputs st0" "stepIdx st = 0"
    "st_A st = None" "st_B st = None" "sAlice st = None" "sBob st = None" by blast
  have nv: "\<not> visited 3 ops st0" "\<not> visited 5 ops st0" "\<not> visited 7 ops st0"
    "\<not> visited 8 ops st0"
    by (rule run_invalid_not_visited [OF assms False], simp)+
  have refine: "nextStep st = nextStep_computeOnce st"
    using False st(2) by (intro nextStep_computeOnce_eq) simp
  show ?thesis
    using st(1,4-7) refine nv
    by (intro exI [of _ st]) (simp add: prevStep_fields)
qed

theorem derived_values_memoized_witness:
  "runStart (loaded ''23'' ''5'' ''6'' ''15'') \<and>
   (\<exists>st. run [Advance, Advance, Advance, Retreat, Advance] (loaded ''23'' ''5'' ''6'' ''15'')
           = Some st \<and>
      nextStep st = nextStep_computeOnce st \<and>
      st_A (prevStep st) = st_A st \<and>
      (st_A st \<noteq> None) =
        visited 3 [Advance, Advance, Advance, Retreat, Advance] (loaded ''23'' ''5'' ''6'' ''15''))"
proof -
  have start: "runStart (loaded ''23'' ''5'' ''6'' ''15'')"
    by (simp add: runStart_def loaded_def)
  from derived_values_memoized [OF start, of "[Advance, Advance, Advance, Retreat, Advance]"]
  show ?thesis using start by blast
qed

text \<open>
  C7. The claim that \<^verbatim>\<open>findGenerator(p)\<close> returns for every prime \<open>p \<ge> 3\<close> fails on a
  random source whose every draw is rejected: for \<open>p = 5\<close> the candidates are drawn below
  the bound 2, with every byte 255 the masked value of each draw is 3, and the first call
  of \<^verbatim>\<open>randomBigIntInRange\<close> never returns.
\<close>

theorem findGenerator_may_not_return:
  "isPrime 5 \<and> findGenerator 5 (\<lambda>_. 255) = None"
proof
  show "isPrime 5" by (rule isPrime_5)
  have "primeFactorsDistinct (5 - 1) = Some [2]" by (simp add: primeFactorsDistinct_4)
  moreover have "\<forall>k. \<not> kthDraw (\<bar>5 - 4\<bar> + 1) k (\<lambda>_. 255) < \<bar>5 - 4\<bar> + 1"
    by (simp add: draw_eval)
  ultimately show "findGenerator 5 (\<lambda>_. 255) = None" by (rule findGenerator_never)
qed

text \<open>
  C7, as amended. For every prime \<open>p \<ge> 3\<close>, \<^verbatim>\<open>primeFactorsDistinct(p - 1)\<close> returns the
  list, without repetition, of the prime factors of \<open>p - 1\<close>. Every \<open>g\<close> that
  \<^verbatim>\<open>findGenerator(p)\<close> returns lies in \<open>[2, max(2, p-2)]\<close> and has multiplicative order
  \<open>p - 1\<close> modulo \<open>p\<close>, and for every \<open>q\<close> of that list \<^verbatim>\<open>modPow(g, (p-1)/q, p)\<close> returns a
  value other than 1. \<^verbatim>\<open>findGenerator(p)\<close> returns on every random source on which the
  draws below \<open>|p - 4| + 1\<close>, the size of the range of the candidates, return from every
  position; on a source whose every draw below that bound is rejected it does not return.
\<close>

theorem findGenerator_spec:
  "isPrime p \<and> 3 \<le> p \<longrightarrow>
     (\<exists>fs. primeFactorsDistinct (p - 1) = Some fs \<and> distinct fs \<and>
        set fs = primeFactorsOf (p - 1) \<and>
        (findGenerator p r = Some (g, r') \<longrightarrow>
           2 \<le> g \<and> g \<le> max 2 (p - 2) \<and> ord p g = nat (p - 1) \<and>
           (\<forall>q\<in>set fs. \<exists>x. modPow g ((p - 1) sdiv q) p = Some x \<and> x \<noteq> 1))) \<and>
     (everAccepted (\<bar>p - 4\<bar> + 1) r \<longrightarrow> (\<exists>g r'. findGenerator p r = Some (g, r'))) \<and>
     ((\<forall>k. \<not> kthDraw (\<bar>p - 4\<bar> + 1) k r < \<bar>p - 4\<bar> + 1) \<longrightarrow> findGenerator p r = None)"
proof (intro impI)
  assume "isPrime p \<and> 3 \<le> p"
  then have p: "isPrime p" and p3: "3 \<le> p" by simp_all
  have "0 < p - 1" using p3 by simp
  from primeFactorsDistinct_correct [OF this]
  obtain fs where fs: "primeFactorsDistinct (p - 1) = Some fs" "set fs = primeFactorsOf (p - 1)"
    "distinct fs" by blast
  have sound: "2 \<le> g \<and> g \<le> max 2 (p - 2) \<and> ord p g = nat (p - 1) \<and>
           (\<forall>q\<in>set fs. \<exists>x. modPow g ((p - 1) sdiv q) p = Some x \<and> x \<noteq> 1)"
    if res: "findGenerator p r = Some (g, r')"
  proof -
    from findGenerator_sound [OF p p3 fs(1,2) res]
    have g: "2 \<le> g" "g \<le> max 2 (p - 2)" "passesAll g (p - 1) p fs = Some True" by simp_all
    have "1 \<le> g" "g < p" using g(1,2) p3 by simp_all
    from passesAll_True_order [OF p p3 fs(2) this g(3)] g(1,2) show ?thesis by simp
  qed
  have ret: "\<exists>g r'. findGenerator p r = Some (g, r')" if "everAccepted (\<bar>p - 4\<bar> + 1) r"
    using that by (rule findGenerator_returns [OF p p3 fs(1,2)])
  have never: "findGenerator p r = None"
    if "\<forall>k. \<not> kthDraw (\<bar>p - 4\<bar> + 1) k r < \<bar>p - 4\<bar> + 1"
    using that by (rule findGenerator_never [OF fs(1)])
  show "(\<exists>fs. primeFactorsDistinct (p - 1) = Some fs \<and> distinct fs \<and>
        set fs = primeFactorsOf (p - 1) \<and>
        (findGenerator p r = Some (g, r') \<longrightarrow>
           2 \<le> g \<and> g \<le> max 2 (p - 2) \<and> ord p g = nat (p - 1) \<and>
           (\<forall>q\<in>set fs. \<exists>x. modPow g ((p - 1) sdiv q) p = Some x \<and> x \<noteq> 1))) \<and>
     (everAccepted (\<bar>p - 4\<bar> + 1) r \<longrightarrow> (\<exists>g r'. findGenerator p r = Some (g, r'))) \<and>
     ((\<forall>k. \<not> kthDraw (\<bar>p - 4\<bar> + 1) k r < \<bar>p - 4\<bar> + 1) \<longrightarrow> findGenerator p r = None)"
    using fs sound ret never by blast
qed

text \<open>
  The theorem at the prime 23 and the source of zero bytes: every one of the 64 random
  candidates is 2, of order 11, and the linear search returns 5.
\<close>

theorem findGenerator_spec_witness:
  "isPrime 23 \<and> (3 :: int) \<le> 23 \<and> everAccepted 20 (\<lambda>_. 0) \<and>
   primeFactorsDistinct 22 = Some [2, 11] \<and>
   map_option fst (findGenerator 23 (\<lambda>_. 0)) = Some 5 \<and>
   ord 23 5 = 22 \<and> modPow 5 11 23 = Some 22 \<and> modPow 5 2 23 = Some 2"
proof -
  have h: "isPrime 23 \<and> (3 :: int) \<le> 23" by (simp add: isPrime_23)
  have e: "everAccepted (\<bar>23 - 4\<bar> + 1) (\<lambda>_. 0)" by (simp add: everAccepted_zero)
  from findGenerator_spec [of 23 "\<lambda>_. 0", THEN mp, OF h, THEN conjunct2, THEN conjunct1, THEN mp,
      OF e]
  obtain g r' where res: "findGenerator 23 (\<lambda>_. 0) = Some (g, r')" by blast
  then have g: "g = 5" using findGenerator_23_zero by simp
  from findGenerator_spec [of 23 "\<lambda>_. 0" 5 r', THEN mp, OF h, THEN conjunct1] res g
  have "ord 23 5 = nat (23 - 1)" by auto
  then have "ord 23 5 = 22" by simp
  then show ?thesis
    using h e primeFactorsDistinct_22 findGenerator_23_zero modPow_5_23 by simp
qed

end
